theory Spec2Isabelle
  imports Main "HOL-Library.Word" "HOL-Library.Sublist"
begin

section \<open>Go values and runtime primitives used by the bundler\<close>

text \<open>
  Go's \<open>uint64\<close> tickets are 64-bit words (\<open>+\<close> wraps, \<open><\<close> is the unsigned order).
  Go's \<open>int\<close> (64 bits on the platforms the program targets) is a 64-bit word as well,
  compared with the signed orders \<open><s\<close> and \<open>\<le>s\<close>; \<open>len\<close> and \<open>cap\<close> of a slice are
  natural numbers and are compared with an \<open>int\<close> field through \<open>sint\<close>.
\<close>

type_synonym uint64 = "64 word"
type_synonym goint = "64 word"

text \<open>
  A call either returns its result, panics (an unrecovered panic ends the process), or
  never returns because the goroutine is parked (on a mutex, a condition variable or a
  channel); a parked call leaves behind the state it had written so far.
\<close>

datatype panic = NilDereference | AcquireTooSmall | ReleaseNotActive | ReleasedMoreThanHeld

datatype ('r, 's) outcome = Returns 'r | Panics panic | Blocks 's

text \<open>
  \<open>sync.Mutex\<close>: the state is whether it is held. \<open>Lock\<close> on a held mutex does not
  proceed (\<open>None\<close>); Go's mutex is not reentrant, so this is also the case when the
  caller itself holds it.
\<close>

definition Lock :: "bool \<Rightarrow> bool option" where
  "Lock held = (if held then None else Some True)"

definition Unlock :: "bool \<Rightarrow> bool" where
  "Unlock held = False"

section \<open>ticket.go: the Ticket type\<close>

text \<open>
  \<open>cond\<close> counts the calls of \<open>cond.Broadcast()\<close>; \<open>nxt\<close> is the field \<open>next\<close>.
\<close>

record Ticket =
  mutex :: bool
  cond :: nat
  active :: "uint64 set"
  nxt :: uint64
  nextHandled :: uint64
  limit :: goint

definition WhatIsNext :: "Ticket \<Rightarrow> uint64" where
  "WhatIsNext t = nxt t"

definition Next :: "Ticket \<Rightarrow> uint64 \<times> Ticket" where
  "Next t = (nxt t, t\<lparr>nxt := nxt t + 1\<rparr>)"

text \<open>
  \<open>min\<close>: the loop starts from \<open>math.MaxUint64\<close> (the word \<open>- 1\<close>) and keeps the
  smaller value over the keys of the map, in whatever order the map yields them.
\<close>

definition min_active :: "uint64 set \<Rightarrow> uint64" where
  "min_active s = Min (insert (- 1) s)"

text \<open>
  The \<open>for\<close> loop of \<open>Acquire\<close>, entered with the mutex held. When the condition
  fails, \<open>cond.Wait()\<close> releases the mutex and parks the caller; a woken caller takes
  the mutex again and re-enters this loop (not the check before it).
\<close>

definition Acquire_loop :: "Ticket \<Rightarrow> uint64 \<Rightarrow> (Ticket, Ticket) outcome" where
  "Acquire_loop t ticket =
     (if \<not> (ticket = nextHandled t \<and> int (card (active t)) < sint (limit t))
      then Blocks (t\<lparr>mutex := Unlock (mutex t)\<rparr>)
      else Returns (t\<lparr>active := insert ticket (active t),
                       nextHandled := nextHandled t + 1,
                       cond := cond t + 1,
                       mutex := Unlock (mutex t)\<rparr>))"

definition Acquire :: "Ticket \<Rightarrow> uint64 \<Rightarrow> (Ticket, Ticket) outcome" where
  "Acquire t ticket =
     (case Lock (mutex t) of
        None \<Rightarrow> Blocks t
      | Some m \<Rightarrow>
          if ticket < nextHandled t then Panics AcquireTooSmall
          else Acquire_loop (t\<lparr>mutex := m\<rparr>) ticket)"

text \<open>
  \<open>Release\<close> defers \<open>t.mutex.Lock()\<close>, not \<open>Unlock\<close>. The deferred call runs when the
  body ends, by return or by panic, with the mutex still held by this very call.
\<close>

definition Release :: "Ticket \<Rightarrow> uint64 \<Rightarrow> (Ticket, Ticket) outcome" where
  "Release t ticket =
     (case Lock (mutex t) of
        None \<Rightarrow> Blocks t
      | Some m \<Rightarrow>
          let t1 = t\<lparr>mutex := m\<rparr>;
              body = (if ticket \<notin> active t1 then Inl ReleaseNotActive
                      else Inr (t1\<lparr>active := active t1 - {ticket}, cond := cond t1 + 1\<rparr>));
              t2 = (case body of Inl p \<Rightarrow> t1 | Inr t' \<Rightarrow> t')
          in (case Lock (mutex t2) of
                None \<Rightarrow> Blocks t2
              | Some m' \<Rightarrow>
                  (case body of Inl p \<Rightarrow> Panics p | Inr t' \<Rightarrow> Returns (t2\<lparr>mutex := m'\<rparr>))))"

definition WaitAll_loop :: "Ticket \<Rightarrow> uint64 \<Rightarrow> (Ticket, Ticket) outcome" where
  "WaitAll_loop t n =
     (if \<not> (n \<le> nextHandled t \<and> n \<le> min_active (active t))
      then Blocks (t\<lparr>mutex := Unlock (mutex t)\<rparr>)
      else Returns (t\<lparr>mutex := Unlock (mutex t)\<rparr>))"

definition WaitAll :: "Ticket \<Rightarrow> uint64 \<Rightarrow> (Ticket, Ticket) outcome" where
  "WaitAll t n =
     (case Lock (mutex t) of
        None \<Rightarrow> Blocks t
      | Some m \<Rightarrow> WaitAll_loop (t\<lparr>mutex := m\<rparr>) n)"

definition NewTicketer :: "goint \<Rightarrow> Ticket" where
  "NewTicketer lim =
     \<lparr>mutex = False, cond = 0, active = {}, nxt = 0, nextHandled = 0, limit = lim\<rparr>"

section \<open>Slices over an explicit store\<close>

text \<open>
  A slice header is a pointer to a backing array, a length and a capacity; the store
  maps an address (an index) to its array, whose cells are \<open>None\<close> until written (the
  zero value \<open>nil\<close>). Every slice of the program starts at index 0 of its array.
\<close>

record slice =
  ptr :: nat
  len :: nat
  cap :: nat

type_synonym 'a store = "'a option list list"

definition make_slice :: "'a store \<Rightarrow> nat \<Rightarrow> 'a store \<times> slice" where
  "make_slice h c = (h @ [replicate c None], \<lparr>ptr = length h, len = 0, cap = c\<rparr>)"

text \<open>
  The capacity \<open>append\<close> asks for when the array is full. Go's runtime doubles small
  slices and may round the result up; the proofs below use nothing but
  \<open>c < growcap c\<close>.
\<close>

definition growcap :: "nat \<Rightarrow> nat" where
  "growcap c = (if c = 0 then 1 else 2 * c)"

text \<open>
  \<open>append(s, x)\<close>: with room left the element is written in place, into the array the
  slice shares with every other header on it; a full array is copied to a new one.
\<close>

definition append1 :: "'a store \<Rightarrow> slice \<Rightarrow> 'a \<Rightarrow> 'a store \<times> slice" where
  "append1 h s x =
     (if len s < cap s
      then (h[ptr s := (h ! ptr s)[len s := Some x]], s\<lparr>len := len s + 1\<rparr>)
      else (h @ [take (len s) (h ! ptr s) @ Some x # replicate (growcap (cap s) - len s - 1) None],
            \<lparr>ptr = length h, len = len s + 1, cap = growcap (cap s)\<rparr>))"

text \<open>What a reader of the slice sees: the first \<open>len\<close> cells of its array.\<close>

definition contents :: "'a store \<Rightarrow> slice \<Rightarrow> 'a option list" where
  "contents h s = take (len s) (h ! ptr s)"

section \<open>The weighted semaphore (golang.org/x/sync/semaphore)\<close>

text \<open>
  \<open>TryAcquire(n)\<close> succeeds when \<open>size - cur >= n\<close> and nobody waits; \<open>Release(n)\<close>
  subtracts and panics (\<open>None\<close>) when \<open>cur\<close> becomes negative.
\<close>

record weighted =
  wsize :: goint
  cur :: goint
  waiters :: nat

definition NewWeighted :: "goint \<Rightarrow> weighted" where
  "NewWeighted n = \<lparr>wsize = n, cur = 0, waiters = 0\<rparr>"

definition TryAcquire :: "weighted \<Rightarrow> goint \<Rightarrow> weighted option" where
  "TryAcquire s n =
     (if n \<le>s wsize s - cur s \<and> waiters s = 0 then Some (s\<lparr>cur := cur s + n\<rparr>) else None)"

definition ReleaseW :: "weighted \<Rightarrow> goint \<Rightarrow> weighted option" where
  "ReleaseW s n = (if cur s - n <s 0 then None else Some (s\<lparr>cur := cur s - n\<rparr>))"

section \<open>What both bundlers share\<close>

datatype error = ErrOversize | ErrOverflow

text \<open>
  A dispatch goroutine started by \<open>flushLocked\<close>: its ticket, the sealed slice, the
  sealed size, and where it stands: before its \<open>acquire\<close> returned, inside the handler,
  after the handler returned (the deferred function has not run yet), or finished.
\<close>

datatype pc = AtAcquire | InHandler | HandlerReturned | Finished

record task =
  tticket :: uint64
  tbundle :: slice
  tsize :: goint
  tpc :: pc

text \<open>Timer and channel operations, in the order they are performed.\<close>

datatype effect = TimerNew | TimerReset | TimerStop bool | CancelSend | GoTimer

text \<open>
  The fields the two \<open>Bundler\<close> structs have in common. \<open>bsize\<close> is the field
  \<open>size\<close>; \<open>timer\<close> says whether the \<open>sync.Once\<close> has created the timer; \<open>sem\<close> is
  \<open>None\<close> while the pointer is nil; \<open>store\<close> holds the backing arrays; \<open>spawned\<close> are
  the dispatch goroutines started so far and \<open>effects\<close> the timer and channel
  operations performed so far.
\<close>

record 'a core =
  TimeThreshold :: goint
  CountThreshold :: goint
  SizeThreshold :: goint
  BundleSizeLimit :: goint
  BufferSizeLimit :: goint
  HandlerLimit :: goint
  bsize :: goint
  timer :: bool
  timerRunning :: bool
  sem :: "weighted option"
  store :: "'a store"
  spawned :: "task list"
  effects :: "effect list"

text \<open>\<open>initSemaphore\<close> / \<open>initSemOnce\<close>: the once runs while \<open>sem\<close> is still nil.\<close>

definition initSemaphore :: "('a, 'z) core_scheme \<Rightarrow> ('a, 'z) core_scheme" where
  "initSemaphore b =
     (case sem b of
        None \<Rightarrow> b\<lparr>sem := Some (NewWeighted (BufferSizeLimit b))\<rparr>
      | Some w \<Rightarrow> b)"

text \<open>\<open>initTimer\<close> / \<open>initTimerOnce\<close>.\<close>

definition initTimer :: "('a, 'z) core_scheme \<Rightarrow> ('a, 'z) core_scheme" where
  "initTimer b = (if timer b then b else b\<lparr>timer := True, effects := effects b @ [TimerNew]\<rparr>)"

text \<open>
  The third step of both \<open>add\<close> functions: with no timer running, the timer is created
  once, reset, and its goroutine started.
\<close>

definition armTimer :: "('a, 'z) core_scheme \<Rightarrow> ('a, 'z) core_scheme" where
  "armTimer b =
     (if \<not> timerRunning b
      then (let b1 = initTimer b
            in b1\<lparr>effects := effects b1 @ [TimerReset, GoTimer], timerRunning := True\<rparr>)
      else b)"

definition and_then :: "('s, 's) outcome \<Rightarrow> ('s \<Rightarrow> ('r, 's) outcome) \<Rightarrow> ('r, 's) outcome" where
  "and_then r f = (case r of Returns s \<Rightarrow> f s | Panics p \<Rightarrow> Panics p | Blocks s \<Rightarrow> Blocks s)"

section \<open>The Item variant of the bundler\<close>

text \<open>An \<open>Item\<close> is known to the bundler by its identity and by what \<open>Size()\<close> returns.\<close>

datatype item = Item (ident: nat) (Size: goint)

record bundlerI = "item core" +
  ticket :: "Ticket option"
  items :: slice
  itemsZero :: slice

text \<open>
  \<open>flushLocked\<close>, called with \<open>b.mutex\<close> held. \<open>stop\<close> is what \<open>b.timer.Stop()\<close>
  answers: true when the call stopped the timer before it fired. The send on the
  unbuffered \<open>timerCancel\<close> is made whatever the answer; when the timer had fired, its
  goroutine has left the \<open>select\<close> for \<open>Flush\<close> and nobody receives.
\<close>

definition flushLocked_item :: "bool \<Rightarrow> bundlerI \<Rightarrow> (bundlerI, bundlerI) outcome" where
  "flushLocked_item stop b =
     and_then
       (if timerRunning b
        then (let b1 = initTimer b;
                  b2 = b1\<lparr>effects := effects b1 @ [TimerStop stop, CancelSend]\<rparr>
              in if stop then Returns (b2\<lparr>timerRunning := False\<rparr>) else Blocks b2)
        else Returns b)
       (\<lambda>b. if len (items b) = 0 then Returns b
            else (let b1 = b\<lparr>items := itemsZero b, bsize := 0\<rparr>
                  in case ticket b1 of
                       None \<Rightarrow> Panics NilDereference
                     | Some t \<Rightarrow>
                         Returns (b1\<lparr>ticket := Some (snd (Next t)),
                                      spawned := spawned b1 @
                                        [\<lparr>tticket = fst (Next t), tbundle = items b,
                                          tsize = bsize b, tpc = AtAcquire\<rparr>]\<rparr>)))"

text \<open>
  \<open>add\<close>. At most two of its three \<open>flushLocked\<close> calls find the timer running: the
  one before the append, and the first one made after it; \<open>stops\<close> holds the answer of
  \<open>Stop()\<close> for each.
\<close>

definition add_item ::
  "bool \<times> bool \<Rightarrow> bundlerI \<Rightarrow> item \<Rightarrow> (bundlerI, bundlerI) outcome" where
  "add_item stops b x =
     and_then
       (if 0 <s BundleSizeLimit b \<and> BundleSizeLimit b <s bsize b + Size x
        then flushLocked_item (fst stops) b else Returns b)
       (\<lambda>b. let hs = append1 (store b) (items b) x;
                b1 = b\<lparr>store := fst hs, items := snd hs, bsize := bsize b + Size x\<rparr>;
                b2 = armTimer b1
            in and_then
                 (if sint (CountThreshold b2) \<le> int (len (items b2))
                  then flushLocked_item (snd stops) b2 else Returns b2)
                 (\<lambda>b. if SizeThreshold b \<le>s bsize b
                      then flushLocked_item (snd stops) b else Returns b))"

text \<open>
  \<open>TryAdd\<close> returns the error (or nil) together with the bundler it leaves. \<open>b.sem\<close>
  is read after \<open>initSemaphore\<close>.
\<close>

definition TryAdd ::
  "bool \<times> bool \<Rightarrow> bundlerI \<Rightarrow> item \<Rightarrow> (error option \<times> bundlerI, bundlerI) outcome" where
  "TryAdd stops b x =
     (if 0 <s BundleSizeLimit b \<and> BundleSizeLimit b <s Size x
      then Returns (Some ErrOversize, b)
      else (let b1 = initSemaphore b
            in case sem b1 of
                 None \<Rightarrow> Panics NilDereference
               | Some w \<Rightarrow>
                   (case TryAcquire w (Size x) of
                      None \<Rightarrow> Returns (Some ErrOverflow, b1)
                    | Some w' \<Rightarrow>
                        map_outcome (Pair None) id (add_item stops (b1\<lparr>sem := Some w'\<rparr>) x))))"

text \<open>
  \<open>Flush\<close> up to its call of \<open>WaitAll\<close>: the seal under \<open>b.mutex\<close>, the watermark
  \<open>b.ticket.WhatIsNext()\<close> and \<open>initSemaphore\<close>. \<open>b.ticket\<close> is a pointer, and
  \<open>WhatIsNext\<close> reads a field through it.
\<close>

definition Flush_seal_item :: "bool \<Rightarrow> bundlerI \<Rightarrow> (uint64 \<times> bundlerI, bundlerI) outcome" where
  "Flush_seal_item stop b =
     and_then (flushLocked_item stop b)
       (\<lambda>b. case ticket b of
              None \<Rightarrow> Panics NilDereference
            | Some t \<Rightarrow> Returns (WhatIsNext t, initSemaphore b))"

definition Flush_item :: "bool \<Rightarrow> bundlerI \<Rightarrow> (bundlerI, bundlerI) outcome" where
  "Flush_item stop b =
     (case Flush_seal_item stop b of
        Returns r \<Rightarrow>
          (case ticket (snd r) of
             None \<Rightarrow> Panics NilDereference
           | Some t \<Rightarrow>
               map_outcome (\<lambda>t'. (snd r)\<lparr>ticket := Some t'\<rparr>) (\<lambda>t'. (snd r)\<lparr>ticket := Some t'\<rparr>)
                 (WaitAll t (fst r)))
      | Panics p \<Rightarrow> Panics p
      | Blocks b' \<Rightarrow> Blocks b')"

text \<open>
  \<open>NewBundler\<close>: the literal names no \<open>ticket\<close>, so the field keeps its zero value,
  the nil pointer. \<open>itemsZero\<close> is made with capacity \<open>(DefaultCountTreshold+1)>>1 = 5\<close>
  and \<open>items\<close> is a copy of that header.
\<close>

definition NewBundler_item :: bundlerI where
  "NewBundler_item =
     \<lparr>TimeThreshold = 1000000000, CountThreshold = 10, SizeThreshold = 1000000,
      BundleSizeLimit = 10000000, BufferSizeLimit = 1000000000, HandlerLimit = 1,
      bsize = 0, timer = False, timerRunning = False, sem = None,
      store = fst (make_slice ([] :: item store) 5), spawned = [], effects = [],
      ticket = None, items = snd (make_slice ([] :: item store) 5),
      itemsZero = snd (make_slice ([] :: item store) 5)\<rparr>"

section \<open>The (item, size) variant of the bundler\<close>

text \<open>
  The ticketing is inline: \<open>mutex4t\<close>, \<open>cond4t\<close> (the broadcasts so far) and the
  fields \<open>active\<close>, \<open>next\<close> and \<open>nextHandled\<close>, here with the suffix \<open>4t\<close> of their
  mutex.
\<close>

record 'a bundlerP = "'a core" +
  "bundle" :: slice
  bundleZero :: slice
  mutex4t :: bool
  cond4t :: nat
  active4t :: "uint64 set"
  next4t :: uint64
  nextHandled4t :: uint64

text \<open>
  \<open>flushLocked\<close>: the send on \<open>timerCancel\<close> is made only when \<open>b.timer.Stop()\<close>
  answers true, that is while the timer goroutine still waits in its \<open>select\<close>.
\<close>

definition flushLocked_pair :: "bool \<Rightarrow> 'a bundlerP \<Rightarrow> 'a bundlerP" where
  "flushLocked_pair stop b =
     (let b1 = (if timerRunning b
                then b\<lparr>effects := effects b @ TimerStop stop # (if stop then [CancelSend] else []),
                       timerRunning := False\<rparr>
                else b)
      in if len (bundle b1) = 0 then b1
         else b1\<lparr>bundle := bundleZero b1, bsize := 0, next4t := next4t b1 + 1,
                 spawned := spawned b1 @
                   [\<lparr>tticket = next4t b1, tbundle = bundle b1, tsize = bsize b1,
                     tpc = AtAcquire\<rparr>]\<rparr>)"

definition add_pair :: "bool \<times> bool \<Rightarrow> 'a bundlerP \<Rightarrow> 'a \<Rightarrow> goint \<Rightarrow> 'a bundlerP" where
  "add_pair stops b x sz =
     (let b0 = (if 0 <s BundleSizeLimit b \<and> BundleSizeLimit b <s bsize b + sz
                then flushLocked_pair (fst stops) b else b);
          hs = append1 (store b0) (bundle b0) x;
          b1 = b0\<lparr>store := fst hs, bundle := snd hs, bsize := bsize b0 + sz\<rparr>;
          b2 = armTimer b1;
          b3 = (if int (len (bundle b2)) = sint (CountThreshold b2)
                then flushLocked_pair (snd stops) b2 else b2)
      in if SizeThreshold b3 \<le>s bsize b3 then flushLocked_pair (snd stops) b3 else b3)"

definition Add_pair ::
  "bool \<times> bool \<Rightarrow> 'a bundlerP \<Rightarrow> 'a \<Rightarrow> goint
     \<Rightarrow> (error option \<times> 'a bundlerP, 'a bundlerP) outcome" where
  "Add_pair stops b x sz =
     (if 0 <s BundleSizeLimit b \<and> BundleSizeLimit b <s sz
      then Returns (Some ErrOversize, b)
      else (let b1 = initSemaphore b
            in case sem b1 of
                 None \<Rightarrow> Panics NilDereference
               | Some w \<Rightarrow>
                   (case TryAcquire w sz of
                      None \<Rightarrow> Returns (Some ErrOverflow, b1)
                    | Some w' \<Rightarrow> Returns (None, add_pair stops (b1\<lparr>sem := Some w'\<rparr>) x sz))))"

definition acquire_loop :: "'a bundlerP \<Rightarrow> uint64 \<Rightarrow> ('a bundlerP, 'a bundlerP) outcome" where
  "acquire_loop b tk =
     (if \<not> (tk = nextHandled4t b \<and> int (card (active4t b)) < sint (HandlerLimit b))
      then Blocks (b\<lparr>mutex4t := Unlock (mutex4t b)\<rparr>)
      else Returns (b\<lparr>active4t := insert tk (active4t b),
                       nextHandled4t := nextHandled4t b + 1,
                       cond4t := cond4t b + 1,
                       mutex4t := Unlock (mutex4t b)\<rparr>))"

definition acquire :: "'a bundlerP \<Rightarrow> uint64 \<Rightarrow> ('a bundlerP, 'a bundlerP) outcome" where
  "acquire b tk =
     (case Lock (mutex4t b) of
        None \<Rightarrow> Blocks b
      | Some m \<Rightarrow>
          if tk < nextHandled4t b then Panics AcquireTooSmall
          else acquire_loop (b\<lparr>mutex4t := m\<rparr>) tk)"

text \<open>\<open>release\<close> defers \<open>Unlock\<close>, which also runs when the body panics.\<close>

definition release :: "'a bundlerP \<Rightarrow> uint64 \<Rightarrow> ('a bundlerP, 'a bundlerP) outcome" where
  "release b tk =
     (case Lock (mutex4t b) of
        None \<Rightarrow> Blocks b
      | Some m \<Rightarrow>
          if tk \<notin> active4t b then Panics ReleaseNotActive
          else Returns (b\<lparr>active4t := active4t b - {tk}, cond4t := cond4t b + 1,
                          mutex4t := Unlock m\<rparr>))"

definition waitAll_loop :: "'a bundlerP \<Rightarrow> uint64 \<Rightarrow> ('a bundlerP, 'a bundlerP) outcome" where
  "waitAll_loop b n =
     (if \<not> (n \<le> nextHandled4t b \<and> n \<le> min_active (active4t b))
      then Blocks (b\<lparr>mutex4t := Unlock (mutex4t b)\<rparr>)
      else Returns (b\<lparr>mutex4t := Unlock (mutex4t b)\<rparr>))"

definition waitAll :: "'a bundlerP \<Rightarrow> uint64 \<Rightarrow> ('a bundlerP, 'a bundlerP) outcome" where
  "waitAll b n =
     (case Lock (mutex4t b) of
        None \<Rightarrow> Blocks b
      | Some m \<Rightarrow> waitAll_loop (b\<lparr>mutex4t := m\<rparr>) n)"

text \<open>
  \<open>Flush\<close> up to its call of \<open>waitAll\<close>: the seal under \<open>b.mutex\<close>, the watermark
  \<open>t := b.next\<close> and \<open>initSemOnce\<close>. The rest of \<open>Flush\<close> is \<open>waitAll(t)\<close>, which
  returns in the first state met by its loop where the condition holds. \<open>Flush_pair\<close>
  is the call during which no other goroutine takes a step.
\<close>

definition Flush_seal :: "bool \<Rightarrow> 'a bundlerP \<Rightarrow> uint64 \<times> 'a bundlerP" where
  "Flush_seal stop b = (let b1 = flushLocked_pair stop b in (next4t b1, initSemaphore b1))"

definition Flush_pair :: "bool \<Rightarrow> 'a bundlerP \<Rightarrow> ('a bundlerP, 'a bundlerP) outcome" where
  "Flush_pair stop b = waitAll (snd (Flush_seal stop b)) (fst (Flush_seal stop b))"

text \<open>\<open>NewBundler\<close>: \<open>bundleZero\<close> is made with capacity 0.\<close>

definition NewBundler_pair :: "'a bundlerP" where
  "NewBundler_pair =
     \<lparr>TimeThreshold = 1000000000, CountThreshold = 10, SizeThreshold = 1000000,
      BundleSizeLimit = 10000000, BufferSizeLimit = 1000000000, HandlerLimit = 1,
      bsize = 0, timer = False, timerRunning = False, sem = None,
      store = fst (make_slice ([] :: 'a store) 0), spawned = [], effects = [],
      bundle = snd (make_slice ([] :: 'a store) 0),
      bundleZero = snd (make_slice ([] :: 'a store) 0),
      mutex4t = False, cond4t = 0, active4t = {}, next4t = 0, nextHandled4t = 0\<rparr>"

text \<open>
  The dispatch goroutine of \<open>flushLocked\<close>, one step at a time: its \<open>acquire\<close>
  returns, the handler returns, and the deferred function runs \<open>b.sem.Release(size)\<close>
  and the release of the ticket. A step that cannot be taken in the state is \<open>None\<close>.
\<close>

definition set_pc :: "nat \<Rightarrow> pc \<Rightarrow> ('a, 'z) core_scheme \<Rightarrow> ('a, 'z) core_scheme" where
  "set_pc k p b = b\<lparr>spawned := (spawned b)[k := (spawned b ! k)\<lparr>tpc := p\<rparr>]\<rparr>"

definition at_pc :: "('a, 'z) core_scheme \<Rightarrow> nat \<Rightarrow> pc \<Rightarrow> bool" where
  "at_pc b k p = (k < length (spawned b) \<and> tpc (spawned b ! k) = p)"

definition handler_returns :: "nat \<Rightarrow> ('a, 'z) core_scheme \<Rightarrow> ('a, 'z) core_scheme option" where
  "handler_returns k b = (if at_pc b k InHandler then Some (set_pc k HandlerReturned b) else None)"

definition sem_release :: "nat \<Rightarrow> ('a, 'z) core_scheme \<Rightarrow> ('a, 'z) core_scheme option" where
  "sem_release k b =
     (case sem b of
        None \<Rightarrow> None
      | Some w \<Rightarrow>
          (case ReleaseW w (tsize (spawned b ! k)) of
             None \<Rightarrow> None
           | Some w' \<Rightarrow> Some (b\<lparr>sem := Some w'\<rparr>)))"

definition dispatch_acquire :: "nat \<Rightarrow> 'a bundlerP \<Rightarrow> 'a bundlerP option" where
  "dispatch_acquire k b =
     (if at_pc b k AtAcquire
      then (case acquire b (tticket (spawned b ! k)) of
              Returns b' \<Rightarrow> Some (set_pc k InHandler b')
            | Panics p \<Rightarrow> None
            | Blocks b' \<Rightarrow> None)
      else None)"

definition dispatch_release :: "nat \<Rightarrow> 'a bundlerP \<Rightarrow> 'a bundlerP option" where
  "dispatch_release k b =
     (if at_pc b k HandlerReturned
      then (case sem_release k b of
              None \<Rightarrow> None
            | Some b1 \<Rightarrow>
                (case release b1 (tticket (spawned b1 ! k)) of
                   Returns b' \<Rightarrow> Some (set_pc k Finished b')
                 | Panics p \<Rightarrow> None
                 | Blocks b' \<Rightarrow> None))
      else None)"

section \<open>Executions\<close>

text \<open>
  An execution is the list of the atomic steps taken, by producers (\<open>Add\<close>, the sealing
  part of \<open>Flush\<close>, also when the timer goroutine calls it) and by the dispatch
  goroutines, in the order the mutexes serialise them. A step that panics or cannot be
  taken ends the execution (\<open>None\<close>). \<open>AddWait\<close> differs from \<open>Add\<close> only in waiting
  for the credit: when it proceeds, its step is that of an admitted \<open>Add\<close>.
\<close>

datatype 'a event =
  EAdd "bool \<times> bool" 'a goint | EFlush bool | EAcquire nat | EHandler nat | ERelease nat

fun step :: "'a bundlerP \<Rightarrow> 'a event \<Rightarrow> 'a bundlerP option" where
  "step b (EAdd stops x sz) =
     (case Add_pair stops b x sz of
        Returns r \<Rightarrow> Some (snd r) | Panics p \<Rightarrow> None | Blocks r \<Rightarrow> None)"
| "step b (EFlush stop) = Some (snd (Flush_seal stop b))"
| "step b (EAcquire k) = dispatch_acquire k b"
| "step b (EHandler k) = handler_returns k b"
| "step b (ERelease k) = dispatch_release k b"

fun run :: "'a bundlerP \<Rightarrow> 'a event list \<Rightarrow> 'a bundlerP option" where
  "run b [] = Some b"
| "run b (e # es) = (case step b e of None \<Rightarrow> None | Some b' \<Rightarrow> run b' es)"

text \<open>
  \<open>Flush\<close> among the other goroutines (\<open>Flush_pair\<close> above is the call during which
  no other goroutine takes a step). The others take their steps between the call's
  \<open>b.mutex.Unlock()\<close> and its read \<open>t := b.next\<close>, between the read and
  \<open>initSemOnce\<close>, between \<open>initSemOnce\<close> and \<open>waitAll\<close> taking \<open>mutex4t\<close>, and,
  each time \<open>waitAll\<close> is parked in \<open>cond4t.Wait()\<close>, until it is woken.
\<close>

record 'a others =
  after_seal :: "'a event list"
  after_read :: "'a event list"
  after_init :: "'a event list"
  parked :: "'a event list list"

text \<open>
  \<open>waitAll(n)\<close> with the steps taken by the others during each \<open>cond4t.Wait()\<close>. A
  woken \<open>Wait\<close> takes \<open>mutex4t\<close> again and the loop tests its condition again, which
  is \<open>waitAll\<close> once more. The call stays parked when nobody wakes it any more; so it
  does when the steps given for the others are not steps the program can take, or one
  of them panics.
\<close>

fun waitAll_among ::
  "'a bundlerP \<Rightarrow> uint64 \<Rightarrow> 'a event list list \<Rightarrow> ('a bundlerP, 'a bundlerP) outcome" where
  "waitAll_among b n [] = waitAll b n"
| "waitAll_among b n (evs # wakes) =
     (case waitAll b n of
        Returns b' \<Rightarrow> Returns b'
      | Panics p \<Rightarrow> Panics p
      | Blocks b' \<Rightarrow>
          (case run b' evs of
             None \<Rightarrow> Blocks b'
           | Some b'' \<Rightarrow> waitAll_among b'' n wakes))"

definition Flush_pair_among ::
  "bool \<Rightarrow> 'a others \<Rightarrow> 'a bundlerP \<Rightarrow> ('a bundlerP, 'a bundlerP) outcome" where
  "Flush_pair_among stop oth b =
     (let b1 = flushLocked_pair stop b
      in case run b1 (after_seal oth) of
           None \<Rightarrow> Blocks b1
         | Some b2 \<Rightarrow>
             (let t = next4t b2
              in case run b2 (after_read oth) of
                   None \<Rightarrow> Blocks b2
                 | Some b3 \<Rightarrow>
                     (case run (initSemaphore b3) (after_init oth) of
                        None \<Rightarrow> Blocks (initSemaphore b3)
                      | Some b4 \<Rightarrow> waitAll_among b4 t (parked oth))))"

text \<open>The others take no step.\<close>

definition alone :: "'a others" where
  "alone = \<lparr>after_seal = [], after_read = [], after_init = [], parked = []\<rparr>"

text \<open>
  The Item variant: its producers' calls. (Its dispatch goroutines end in
  \<open>Ticket.Release\<close>; the ticketer is followed on its own below.)
\<close>

datatype eventI = ITryAdd "bool \<times> bool" item | IFlush bool

fun stepI :: "bundlerI \<Rightarrow> eventI \<Rightarrow> bundlerI option" where
  "stepI b (ITryAdd stops x) =
     (case TryAdd stops b x of
        Returns r \<Rightarrow> Some (snd r) | Panics p \<Rightarrow> None | Blocks b' \<Rightarrow> None)"
| "stepI b (IFlush stop) =
     (case Flush_seal_item stop b of
        Returns r \<Rightarrow> Some (snd r) | Panics p \<Rightarrow> None | Blocks b' \<Rightarrow> None)"

fun runI :: "bundlerI \<Rightarrow> eventI list \<Rightarrow> bundlerI option" where
  "runI b [] = Some b"
| "runI b (e # es) = (case stepI b e of None \<Rightarrow> None | Some b' \<Rightarrow> runI b' es)"

text \<open>
  The ticketer of ticket.go under its protocol: a ticket is issued by \<open>Next\<close> before
  it is acquired. \<open>Release\<close> never returns, but the state it leaves is the one the
  other goroutines see.
\<close>

datatype tevent = TNext | TAcquire uint64 | TRelease uint64

fun tstep :: "Ticket \<Rightarrow> tevent \<Rightarrow> Ticket option" where
  "tstep t TNext = Some (snd (Next t))"
| "tstep t (TAcquire x) =
     (if x < nxt t
      then (case Acquire t x of Returns t' \<Rightarrow> Some t' | Panics p \<Rightarrow> None | Blocks t' \<Rightarrow> None)
      else None)"
| "tstep t (TRelease x) =
     (case Release t x of Returns t' \<Rightarrow> Some t' | Panics p \<Rightarrow> None | Blocks t' \<Rightarrow> Some t')"

fun trun :: "Ticket \<Rightarrow> tevent list \<Rightarrow> Ticket option" where
  "trun t [] = Some t"
| "trun t (e # es) = (case tstep t e of None \<Rightarrow> None | Some t' \<Rightarrow> trun t' es)"

text \<open>
  A new bundler whose public fields have been set (and, for the Item variant, whose
  \<open>ticket\<close> is nil or a new ticketer).
\<close>

definition fresh_pair :: "'a bundlerP \<Rightarrow> bool" where
  "fresh_pair b =
     (b = NewBundler_pair\<lparr>TimeThreshold := TimeThreshold b, CountThreshold := CountThreshold b,
            SizeThreshold := SizeThreshold b, BundleSizeLimit := BundleSizeLimit b,
            BufferSizeLimit := BufferSizeLimit b, HandlerLimit := HandlerLimit b\<rparr>)"

definition fresh_item :: "bundlerI \<Rightarrow> bool" where
  "fresh_item b =
     (b = NewBundler_item\<lparr>TimeThreshold := TimeThreshold b, CountThreshold := CountThreshold b,
            SizeThreshold := SizeThreshold b, BundleSizeLimit := BundleSizeLimit b,
            BufferSizeLimit := BufferSizeLimit b, HandlerLimit := HandlerLimit b,
            ticket := ticket b\<rparr>
      \<and> (case ticket b of None \<Rightarrow> True | Some t \<Rightarrow> t = NewTicketer (limit t)))"

text \<open>
  \<open>add\<close> called directly, one call after the other, whatever the sizes (the public
  entry points call it only for items that passed the oversize check).
\<close>

fun adds_pair :: "'a bundlerP \<Rightarrow> ((bool \<times> bool) \<times> 'a \<times> goint) list \<Rightarrow> 'a bundlerP" where
  "adds_pair b [] = b"
| "adds_pair b (c # cs) = adds_pair (add_pair (fst c) b (fst (snd c)) (snd (snd c))) cs"

fun adds_item :: "bundlerI \<Rightarrow> ((bool \<times> bool) \<times> item) list \<Rightarrow> bundlerI option" where
  "adds_item b [] = Some b"
| "adds_item b (c # cs) =
     (case add_item (fst c) b (snd c) of
        Returns b' \<Rightarrow> adds_item b' cs | Panics p \<Rightarrow> None | Blocks b' \<Rightarrow> None)"

text \<open>
  The size invariant of the accumulator \<open>acc\<close> (\<open>bundle\<close> or \<open>items\<close>) for a bound
  \<open>M\<close>: an empty accumulator has size 0, and neither the accumulated size nor the size
  of a sealed bundle exceeds \<open>M\<close>.
\<close>

definition sized :: "int \<Rightarrow> slice \<Rightarrow> ('a, 'z) core_scheme \<Rightarrow> bool" where
  "sized M acc b =
     ((len acc = 0 \<longrightarrow> bsize b = 0) \<and> sint (bsize b) \<le> M
      \<and> (\<forall>t \<in> set (spawned b). sint (tsize t) \<le> M))"

definition config :: "('a, 'z) core_scheme \<Rightarrow> goint \<times> goint \<times> goint \<times> goint \<times> goint \<times> goint" where
  "config b =
     (TimeThreshold b, CountThreshold b, SizeThreshold b, BundleSizeLimit b,
      BufferSizeLimit b, HandlerLimit b)"

text \<open>
  What the dispatch goroutines hold: for each one, in the order they were started, its
  slice header and what its handler reads through it in the current store.
\<close>

definition sealed_view :: "('a, 'z) core_scheme \<Rightarrow> (slice \<times> 'a option list) list" where
  "sealed_view b = map (\<lambda>t. (tbundle t, contents (store b) (tbundle t))) (spawned b)"

text \<open>
  The pair variant's accumulator never shares an array it can write to: \<open>bundleZero\<close>
  is empty and has no capacity, and an accumulator with capacity sits on an array of its
  own.
\<close>

definition unshared :: "'a bundlerP \<Rightarrow> bool" where
  "unshared b =
     (len (bundleZero b) = 0 \<and> cap (bundleZero b) = 0 \<and> ptr (bundleZero b) < length (store b)
      \<and> ptr (bundle b) < length (store b)
      \<and> (\<forall>s \<in> set (map tbundle (spawned b)).
            ptr s < length (store b) \<and> (0 < cap (bundle b) \<longrightarrow> ptr s \<noteq> ptr (bundle b))))"

text \<open>
  An Item-variant bundler whose \<open>ticket\<close> is nil and that has started no dispatch
  goroutine.
\<close>

definition unsealed :: "bundlerI \<Rightarrow> bool" where
  "unsealed b = (ticket b = None \<and> spawned b = [])"

text \<open>
  The dispatch goroutines whose \<open>acquire\<close> returned, in the order of the returns, and
  the same for the calls of \<open>Ticket.Acquire\<close>; the number of tickets \<open>Next\<close> issued.
\<close>

fun acquired :: "'a event list \<Rightarrow> nat list" where
  "acquired [] = []"
| "acquired (EAcquire k # es) = k # acquired es"
| "acquired (e # es) = acquired es"

fun tacquired :: "tevent list \<Rightarrow> uint64 list" where
  "tacquired [] = []"
| "tacquired (TAcquire x # es) = x # tacquired es"
| "tacquired (e # es) = tacquired es"

fun issued :: "tevent list \<Rightarrow> nat" where
  "issued [] = 0"
| "issued (TNext # es) = Suc (issued es)"
| "issued (e # es) = issued es"

text \<open>
  How the ticket fields and the dispatch goroutines \<open>sp\<close> fit together when \<open>m\<close>
  acquires have returned: goroutine \<open>k\<close> holds ticket \<open>k\<close>, the first \<open>m\<close> goroutines
  are past their acquire, \<open>next\<close> counts the goroutines, \<open>nextHandled\<close> is \<open>m\<close>, and
  \<open>active\<close> holds the tickets of the goroutines between acquire and release.
\<close>

definition ticketing :: "nat \<Rightarrow> task list \<Rightarrow> uint64 set \<Rightarrow> uint64 \<Rightarrow> uint64 \<Rightarrow> bool" where
  "ticketing m sp act nx nh =
     (m \<le> length sp \<and> nx = of_nat (length sp) \<and> nh = of_nat m
      \<and> (\<forall>k < length sp. tticket (sp ! k) = of_nat k \<and> ((tpc (sp ! k) = AtAcquire) = (m \<le> k)))
      \<and> act = of_nat ` {k. k < length sp
                           \<and> (tpc (sp ! k) = InHandler \<or> tpc (sp ! k) = HandlerReturned)})"

text \<open>
  The ticketing invariant of a pair-variant bundler between two steps: the fields fit
  the goroutines, \<open>mutex4t\<close> is free, and \<open>active\<close> is within a \<open>HandlerLimit\<close>
  that is not negative.
\<close>

definition ticketed :: "nat \<Rightarrow> 'a bundlerP \<Rightarrow> bool" where
  "ticketed m b =
     (ticketing m (spawned b) (active4t b) (next4t b) (nextHandled4t b)
      \<and> \<not> mutex4t b
      \<and> (0 \<le>s HandlerLimit b \<longrightarrow> int (card (active4t b)) \<le> sint (HandlerLimit b)))"

text \<open>
  The invariant of a ticketer of ticket.go after \<open>n\<close> tickets were issued and \<open>m\<close>
  acquired.
\<close>

definition tinv :: "nat \<Rightarrow> nat \<Rightarrow> Ticket \<Rightarrow> bool" where
  "tinv n m t =
     (nxt t = of_nat n \<and> nextHandled t = of_nat m \<and> m \<le> n
      \<and> active t \<subseteq> of_nat ` {k. k < m} \<and> int (card (active t)) \<le> sint (limit t))"

text \<open>
  When an Item-variant bundler and a pair-variant bundler are in step: same public
  fields, same accumulated size and count, same timer state, credit and effects, the
  same dispatched bundles by ticket, length and size, and the same next ticket. The
  Item variant has a ticketer; the count is below \<open>CountThreshold\<close>, as it is between
  two calls when the threshold is positive.
\<close>

definition agree :: "bundlerI \<Rightarrow> item bundlerP \<Rightarrow> bool" where
  "agree i p =
     (config i = config p \<and> bsize i = bsize p \<and> timer i = timer p
      \<and> timerRunning i = timerRunning p \<and> (timerRunning i \<longrightarrow> timer i)
      \<and> sem i = sem p \<and> effects i = effects p
      \<and> len (items i) = len (bundle p)
      \<and> map (\<lambda>t. (tticket t, len (tbundle t), tsize t)) (spawned i)
          = map (\<lambda>t. (tticket t, len (tbundle t), tsize t)) (spawned p)
      \<and> (\<exists>t. ticket i = Some t \<and> nxt t = next4t p)
      \<and> len (itemsZero i) = 0 \<and> len (bundleZero p) = 0)"

text \<open>
  The cumulative size of what a slice holds (a nil cell counts 0), and the accounting
  invariant of the Item variant: the headers \<open>items\<close> and \<open>itemsZero\<close> fit their
  arrays, \<open>itemsZero\<close> is empty, and \<open>size\<close> is the cumulative size of \<open>items\<close>.
\<close>

definition cumulative :: "item option list \<Rightarrow> goint" where
  "cumulative cs = sum_list (map (\<lambda>c. case c of None \<Rightarrow> 0 | Some x \<Rightarrow> Size x) cs)"

definition fits :: "'a store \<Rightarrow> slice \<Rightarrow> bool" where
  "fits h s = (ptr s < length h \<and> len s \<le> cap s \<and> cap s = length (h ! ptr s))"

definition accounted :: "bundlerI \<Rightarrow> bool" where
  "accounted b =
     (fits (store b) (items b) \<and> fits (store b) (itemsZero b) \<and> len (itemsZero b) = 0
      \<and> bsize b = cumulative (contents (store b) (items b)))"

section \<open>Ticket.Release and the ticketer mutex\<close>

lemma Lock_held [simp]: "Lock True = None"
  by (simp add: Lock_def)

lemma Lock_free [simp]: "Lock False = Some True"
  by (simp add: Lock_def)

lemma Unlock_simp [simp]: "Unlock m = False"
  by (simp add: Unlock_def)

lemma Release_never_returns: "Release t x \<noteq> Returns t'"
  by (cases "mutex t") (simp_all add: Release_def Let_def)

lemma Release_never_panics: "Release t x \<noteq> Panics p"
  by (cases "mutex t") (simp_all add: Release_def Let_def)

lemma Release_leaves_mutex_held:
  "Release t x = Blocks t' \<Longrightarrow> mutex t'"
  by (cases "mutex t") (auto simp: Release_def Let_def split: if_splits)

text \<open>
  The pair variant's \<open>release\<close>: it returns exactly for an active ticket, which it
  removes, and panics exactly for a ticket that is not active; either way its deferred
  \<open>Unlock\<close> leaves \<open>mutex4t\<close> free.
\<close>

lemma release_pair_unlocks:
  "\<not> mutex4t b \<Longrightarrow>
     (tk \<in> active4t b \<longrightarrow>
        release b tk = Returns (b\<lparr>active4t := active4t b - {tk}, cond4t := cond4t b + 1,
                                  mutex4t := False\<rparr>))
     \<and> (tk \<notin> active4t b \<longrightarrow> release b tk = Panics ReleaseNotActive)"
  by (simp add: release_def)

text \<open>
  C5 (ticket.go). One ticket is issued and acquired on a fresh ticketer of limit 1, then
  released: the ticket leaves \<open>active\<close> and the broadcast happens, but the call parks on
  its own deferred \<open>Lock\<close> and the mutex stays held, so no later \<open>Acquire\<close>,
  \<open>Release\<close> or \<open>WaitAll\<close> can take it.
\<close>

theorem Release_deadlocks_on_deferred_Lock:
  "Acquire (snd (Next (NewTicketer 1))) 0
     = Returns \<lparr>mutex = False, cond = 1, active = {0}, nxt = 1, nextHandled = 1, limit = 1\<rparr>
   \<and> Release \<lparr>mutex = False, cond = 1, active = {0}, nxt = 1, nextHandled = 1, limit = 1\<rparr> 0
     = Blocks \<lparr>mutex = True, cond = 2, active = {}, nxt = 1, nextHandled = 1, limit = 1\<rparr>
   \<and> WaitAll \<lparr>mutex = True, cond = 2, active = {}, nxt = 1, nextHandled = 1, limit = 1\<rparr> 1
     = Blocks \<lparr>mutex = True, cond = 2, active = {}, nxt = 1, nextHandled = 1, limit = 1\<rparr>"
  by (simp add: Acquire_def Acquire_loop_def Next_def NewTicketer_def Release_def WaitAll_def)

section \<open>Evaluating the two variants on concrete inputs\<close>

lemmas item_defs =
  TryAdd_def add_item_def flushLocked_item_def and_then_def initSemaphore_def
  NewBundler_item_def make_slice_def append1_def armTimer_def initTimer_def TryAcquire_def
  NewWeighted_def Flush_item_def Flush_seal_item_def Next_def NewTicketer_def WhatIsNext_def
  Let_def word_sless_alt word_sle_eq

lemmas pair_defs =
  Add_pair_def add_pair_def flushLocked_pair_def initSemaphore_def
  NewBundler_pair_def make_slice_def append1_def armTimer_def initTimer_def TryAcquire_def
  NewWeighted_def Flush_pair_def Flush_seal_def waitAll_def waitAll_loop_def min_active_def
  growcap_def Let_def word_sless_alt word_sle_eq

lemma Flush_item_fresh: "Flush_item stop NewBundler_item = Panics NilDereference"
  by (simp add: item_defs)

lemma Flush_pair_fresh:
  "Flush_pair stop (NewBundler_pair :: 'a bundlerP) = Returns (initSemaphore NewBundler_pair)"
  by (simp add: pair_defs)

lemma TryAdd_item_count0:
  "map_outcome (\<lambda>r. (fst r, spawned (snd r), len (items (snd r)))) id
     (TryAdd (s, True) (NewBundler_item\<lparr>CountThreshold := 0, ticket := Some (NewTicketer 1)\<rparr>)
        (Item 0 1))
   = Returns (None,
        [\<lparr>tticket = 0, tbundle = \<lparr>ptr = 0, len = 1, cap = 5\<rparr>, tsize = 1, tpc = AtAcquire\<rparr>], 0)"
  by (simp add: item_defs)

lemma Add_pair_count0:
  "map_outcome (\<lambda>r. (fst r, spawned (snd r), len (bundle (snd r)))) id
     (Add_pair stops (NewBundler_pair\<lparr>CountThreshold := 0\<rparr>) x 1)
   = Returns (None, [], 1)"
  by (simp add: pair_defs)

text \<open>
  C10. \<open>NewBundler\<close> of the Item variant leaves \<open>ticket\<close> nil. \<open>Flush\<close> on the new
  bundler panics on \<open>b.ticket.WhatIsNext()\<close>, and the first admission that seals (here
  one item as large as \<open>SizeThreshold\<close>) panics on \<open>b.ticket.Next()\<close>.
\<close>

theorem NewBundler_item_leaves_ticket_nil:
  "ticket NewBundler_item = None
   \<and> Flush_item stop NewBundler_item = Panics NilDereference
   \<and> TryAdd (s, True) NewBundler_item (Item 0 1000000) = Panics NilDereference"
  by (simp add: item_defs)

text \<open>
  C9. The two variants differ on the same calls under the same configuration.
  \<open>Flush\<close> on a new bundler: the Item variant panics, the pair variant returns.
  With \<open>CountThreshold = 0\<close> and one admission of size 1 (the Item variant given a
  ticketer, so that it can seal at all): the Item variant seals the item at once, the
  pair variant seals nothing and keeps it in the accumulator.
\<close>

theorem variants_not_equivalent:
  "Flush_item stop NewBundler_item = Panics NilDereference
   \<and> Flush_pair stop (NewBundler_pair :: item bundlerP) = Returns (initSemaphore NewBundler_pair)
   \<and> map_outcome (\<lambda>r. (fst r, map tsize (spawned (snd r)), len (items (snd r)))) id
        (TryAdd (s, True)
           (NewBundler_item\<lparr>CountThreshold := 0, ticket := Some (NewTicketer 1)\<rparr>) (Item 0 1))
      = Returns (None, [1], 0)
   \<and> map_outcome (\<lambda>r. (fst r, map tsize (spawned (snd r)), len (bundle (snd r)))) id
        (Add_pair (s, True) (NewBundler_pair\<lparr>CountThreshold := 0\<rparr>) (Item 0 1) 1)
      = Returns (None, [], 1)"
proof -
  have a: "Flush_item stop NewBundler_item = Panics NilDereference"
    by (rule Flush_item_fresh)
  have b: "Flush_pair stop (NewBundler_pair :: item bundlerP)
             = Returns (initSemaphore NewBundler_pair)"
    by (rule Flush_pair_fresh)
  have c: "map_outcome (\<lambda>r. (fst r, map tsize (spawned (snd r)), len (items (snd r)))) id
        (TryAdd (s, True)
           (NewBundler_item\<lparr>CountThreshold := 0, ticket := Some (NewTicketer 1)\<rparr>) (Item 0 1))
      = Returns (None, [1], 0)"
    by (simp add: item_defs)
  have d: "map_outcome (\<lambda>r. (fst r, map tsize (spawned (snd r)), len (bundle (snd r)))) id
        (Add_pair (s, True) (NewBundler_pair\<lparr>CountThreshold := 0\<rparr>) (Item 0 1) 1)
      = Returns (None, [], 1)"
    by (simp add: pair_defs)
  from a b c d show ?thesis by blast
qed

text \<open>
  C8. The pair variant compares with \<open>==\<close>. With \<open>CountThreshold = 0\<close> the
  accumulator holds one item after the first admission, which is at least the
  threshold, and nothing is sealed; the Item variant, which compares with \<open>>=\<close>, seals
  on the same input.
\<close>

theorem add_pair_count_trigger_is_equality:
  "map_outcome (\<lambda>r. (fst r, spawned (snd r),
                      sint (CountThreshold (snd r)) \<le> int (len (bundle (snd r))))) id
     (Add_pair stops (NewBundler_pair\<lparr>CountThreshold := 0\<rparr>) x 1)
   = Returns (None, [], True)
   \<and> map_outcome (\<lambda>r. (fst r, length (spawned (snd r)))) id
        (TryAdd (s, True)
           (NewBundler_item\<lparr>CountThreshold := 0, ticket := Some (NewTicketer 1)\<rparr>) (Item 0 1))
      = Returns (None, 1)"
proof -
  have a: "map_outcome (\<lambda>r. (fst r, spawned (snd r),
                      sint (CountThreshold (snd r)) \<le> int (len (bundle (snd r))))) id
     (Add_pair stops (NewBundler_pair\<lparr>CountThreshold := 0\<rparr>) x 1)
   = Returns (None, [], True)"
    by (simp add: pair_defs)
  have b: "map_outcome (\<lambda>r. (fst r, length (spawned (snd r)))) id
        (TryAdd (s, True)
           (NewBundler_item\<lparr>CountThreshold := 0, ticket := Some (NewTicketer 1)\<rparr>) (Item 0 1))
      = Returns (None, 1)"
    by (simp add: item_defs)
  from a b show ?thesis by blast
qed

section \<open>The cancel message of flushLocked\<close>

lemma flushLocked_pair_effects:
  "effects (flushLocked_pair stop b) =
     effects b @ (if timerRunning b then TimerStop stop # (if stop then [CancelSend] else [])
                  else [])"
  by (simp add: flushLocked_pair_def Let_def)

lemma flushLocked_pair_sends_iff:
  "(CancelSend \<in> set (drop (length (effects b)) (effects (flushLocked_pair stop b))))
     = (timerRunning b \<and> stop)"
  by (simp add: flushLocked_pair_effects)

lemma flushLocked_pair_timer_off: "\<not> timerRunning (flushLocked_pair stop b)"
  by (simp add: flushLocked_pair_def Let_def)

lemma flushLocked_pair_sends_once:
  "length (filter (\<lambda>e. e = CancelSend) (drop (length (effects b)) (effects (flushLocked_pair stop b))))
     = (if timerRunning b \<and> stop then 1 else 0)"
  by (simp add: flushLocked_pair_effects)

text \<open>
  C6. The Item variant sends on \<open>timerCancel\<close> whatever \<open>Stop()\<close> answers. After one
  admission on a new bundler the timer runs; when it has fired (\<open>Stop()\<close> answers
  false) \<open>flushLocked\<close> still performs the send, which no goroutine receives, and parks.
  The pair variant performs no send in the same situation.
\<close>

theorem flushLocked_item_sends_after_timer_fired:
  "map_outcome (\<lambda>r. (fst r, timerRunning (snd r), effects (snd r))) id
     (TryAdd stops NewBundler_item (Item 0 1))
   = Returns (None, True, [TimerNew, TimerReset, GoTimer])
   \<and> map_outcome effects effects
        (and_then (map_outcome snd id (TryAdd stops NewBundler_item (Item 0 1)))
           (flushLocked_item False))
      = Blocks [TimerNew, TimerReset, GoTimer, TimerStop False, CancelSend]
   \<and> map_outcome (\<lambda>r. effects (flushLocked_pair False (snd r))) id
        (Add_pair stops NewBundler_pair x 1)
      = Returns [TimerNew, TimerReset, GoTimer, TimerStop False]"
proof -
  have a: "map_outcome (\<lambda>r. (fst r, timerRunning (snd r), effects (snd r))) id
     (TryAdd stops NewBundler_item (Item 0 1))
   = Returns (None, True, [TimerNew, TimerReset, GoTimer])"
    by (simp add: item_defs)
  have b: "map_outcome effects effects
        (and_then (map_outcome snd id (TryAdd stops NewBundler_item (Item 0 1)))
           (flushLocked_item False))
      = Blocks [TimerNew, TimerReset, GoTimer, TimerStop False, CancelSend]"
    by (simp add: item_defs)
  have c: "map_outcome (\<lambda>r. effects (flushLocked_pair False (snd r))) id
        (Add_pair stops NewBundler_pair x 1)
      = Returns [TimerNew, TimerReset, GoTimer, TimerStop False]"
    by (simp add: pair_defs)
  from a b c show ?thesis by blast
qed

section \<open>Rejections of TryAdd\<close>

lemma initSemaphore_idem: "initSemaphore (initSemaphore b) = initSemaphore b"
  by (cases "sem b") (simp_all add: initSemaphore_def)

lemma sem_initSemaphore: "\<exists>w. sem (initSemaphore b) = Some w"
  by (cases "sem b") (simp_all add: initSemaphore_def)

lemma admitted_not_rejected: "map_outcome (Pair None) id r \<noteq> Returns (Some e, b')"
  by (cases r) simp_all

lemma TryAdd_oversize:
  "(\<exists>b'. TryAdd stops b x = Returns (Some ErrOversize, b'))
     = (0 <s BundleSizeLimit b \<and> BundleSizeLimit b <s Size x)"
  by (auto simp: TryAdd_def Let_def admitted_not_rejected split: option.splits) 

lemma TryAdd_overflow:
  "(\<exists>b'. TryAdd stops b x = Returns (Some ErrOverflow, b'))
     = (\<not> (0 <s BundleSizeLimit b \<and> BundleSizeLimit b <s Size x)
        \<and> (\<exists>w. sem (initSemaphore b) = Some w \<and> TryAcquire w (Size x) = None))"
  by (auto simp: TryAdd_def Let_def admitted_not_rejected split: option.splits) 

lemma TryAdd_rejected_state:
  "TryAdd stops b x = Returns (Some e, b') \<Longrightarrow>
     (e = ErrOversize \<and> b' = b) \<or> (e = ErrOverflow \<and> b' = initSemaphore b)"
  by (auto simp: TryAdd_def Let_def admitted_not_rejected split: option.splits if_splits) 

lemma TryAdd_admits:
  "\<not> (0 <s BundleSizeLimit b \<and> BundleSizeLimit b <s Size y) \<Longrightarrow>
   sem (initSemaphore b) = Some w \<Longrightarrow> TryAcquire w (Size y) = Some w' \<Longrightarrow>
   TryAdd stops b y = map_outcome (Pair None) id (add_item stops ((initSemaphore b)\<lparr>sem := Some w'\<rparr>) y)"
  by (auto simp: TryAdd_def Let_def)

lemma initSemaphore_fields:
  "items (initSemaphore b) = items b" "bsize (initSemaphore b) = bsize b"
  "store (initSemaphore b) = store b" "spawned (initSemaphore b) = spawned b"
  "effects (initSemaphore b) = effects b" "timerRunning (initSemaphore b) = timerRunning b"
  "BundleSizeLimit (initSemaphore b) = BundleSizeLimit b"
  "ticket (initSemaphore b) = ticket b"
  by (cases "sem b"; simp add: initSemaphore_def)+

lemma flushLocked_item_returns:
  "ticket b \<noteq> None \<Longrightarrow> \<exists>b'. flushLocked_item True b = Returns b' \<and> ticket b' \<noteq> None"
  by (cases "ticket b") (auto simp: flushLocked_item_def and_then_def Let_def initTimer_def)

lemma flushLocked_item_no_panic:
  "ticket b \<noteq> None \<Longrightarrow> flushLocked_item True b \<noteq> Panics p"
  using flushLocked_item_returns [of b] by auto

lemma flushLocked_item_no_block:
  "ticket b \<noteq> None \<Longrightarrow> flushLocked_item True b \<noteq> Blocks b'"
  using flushLocked_item_returns [of b] by auto

lemma flushLocked_item_keeps_ticket:
  "flushLocked_item True b = Returns b' \<Longrightarrow> ticket b \<noteq> None \<Longrightarrow> ticket b' \<noteq> None"
  using flushLocked_item_returns [of b] by auto

lemma ticket_armTimer [simp]: "ticket (armTimer b) = ticket b"
  by (simp add: armTimer_def initTimer_def Let_def)

lemma add_item_returns:
  assumes "ticket b \<noteq> None"
  shows "\<exists>b'. add_item (True, True) b x = Returns b'"
proof -
  have "add_item (True, True) b x \<noteq> Panics p" for p
    using assms unfolding add_item_def and_then_def Let_def
    by (auto split: outcome.splits if_splits
          simp: flushLocked_item_no_panic dest!: flushLocked_item_keeps_ticket)
  moreover have "add_item (True, True) b x \<noteq> Blocks b'" for b'
    using assms unfolding add_item_def and_then_def Let_def
    by (auto split: outcome.splits if_splits
          simp: flushLocked_item_no_block dest!: flushLocked_item_keeps_ticket)
  ultimately show ?thesis by (cases "add_item (True, True) b x") auto
qed

text \<open>
  \<open>TryAdd\<close> returns \<open>ErrOversize\<close> exactly when the limit is positive and the item
  is larger, and then the bundler is untouched (the semaphore is not even created);
  it returns \<open>ErrOverflow\<close> exactly when the item is not oversize and \<open>TryAcquire\<close>
  fails. After either error the accumulator, its size, the store, the dispatched
  bundles, the timer and the available credit are what they were, and a later
  \<open>TryAdd\<close> of an item that fits behaves as it would have without the failed call: it
  is admitted and handed to \<open>add\<close>. What \<open>add\<close> then does is another matter: it
  returns when the bundler has a ticketer and no timer has fired, which is not the case
  of a bundler that \<open>NewBundler\<close> built as soon as \<open>add\<close> has to seal.
\<close>

lemma TryAdd_rejections_leave_no_trace:
  "((\<exists>b'. TryAdd stops b x = Returns (Some ErrOversize, b'))
      = (0 <s BundleSizeLimit b \<and> BundleSizeLimit b <s Size x))
   \<and> ((\<exists>b'. TryAdd stops b x = Returns (Some ErrOverflow, b'))
      = (\<not> (0 <s BundleSizeLimit b \<and> BundleSizeLimit b <s Size x)
         \<and> (\<exists>w. sem (initSemaphore b) = Some w \<and> TryAcquire w (Size x) = None)))
   \<and> (\<forall>e b'. TryAdd stops b x = Returns (Some e, b') \<longrightarrow>
         (e = ErrOversize \<longrightarrow> b' = b)
         \<and> items b' = items b \<and> bsize b' = bsize b \<and> store b' = store b
         \<and> spawned b' = spawned b \<and> effects b' = effects b
         \<and> timerRunning b' = timerRunning b
         \<and> sem (initSemaphore b') = sem (initSemaphore b)
         \<and> (\<forall>stops' y w w'.
               \<not> (0 <s BundleSizeLimit b \<and> BundleSizeLimit b <s Size y) \<longrightarrow>
               sem (initSemaphore b) = Some w \<longrightarrow> TryAcquire w (Size y) = Some w' \<longrightarrow>
               TryAdd stops' b' y = TryAdd stops' b y
               \<and> TryAdd stops' b' y
                   = map_outcome (Pair None) id
                       (add_item stops' ((initSemaphore b)\<lparr>sem := Some w'\<rparr>) y)
               \<and> (ticket b \<noteq> None \<longrightarrow>
                    (\<exists>b''. TryAdd (True, True) b' y = Returns (None, b'')))))"
proof (intro conjI allI impI)
  show "(\<exists>b'. TryAdd stops b x = Returns (Some ErrOversize, b'))
      = (0 <s BundleSizeLimit b \<and> BundleSizeLimit b <s Size x)"
    by (rule TryAdd_oversize)
next
  show "(\<exists>b'. TryAdd stops b x = Returns (Some ErrOverflow, b'))
      = (\<not> (0 <s BundleSizeLimit b \<and> BundleSizeLimit b <s Size x)
         \<and> (\<exists>w. sem (initSemaphore b) = Some w \<and> TryAcquire w (Size x) = None))"
    by (rule TryAdd_overflow)
next
  fix e b' assume r: "TryAdd stops b x = Returns (Some e, b')"
  note st = TryAdd_rejected_state [OF r]
  from st show "b' = b" if "e = ErrOversize" using that by auto
  from st show "items b' = items b" by (auto simp: initSemaphore_fields)
  from st show "bsize b' = bsize b" by (auto simp: initSemaphore_fields)
  from st show "store b' = store b" by (auto simp: initSemaphore_fields)
  from st show "spawned b' = spawned b" by (auto simp: initSemaphore_fields)
  from st show "effects b' = effects b" by (auto simp: initSemaphore_fields)
  from st show "timerRunning b' = timerRunning b" by (auto simp: initSemaphore_fields)
  from st show "sem (initSemaphore b') = sem (initSemaphore b)"
    by (auto simp: initSemaphore_idem)
  fix stops' y w w'
  assume fit: "\<not> (0 <s BundleSizeLimit b \<and> BundleSizeLimit b <s Size y)"
    and w: "sem (initSemaphore b) = Some w" and a: "TryAcquire w (Size y) = Some w'"
  have lim: "BundleSizeLimit b' = BundleSizeLimit b"
    using st by (auto simp: initSemaphore_fields)
  have ib: "initSemaphore b' = initSemaphore b"
    using st by (auto simp: initSemaphore_idem)
  have 1: "TryAdd stops' b y
      = map_outcome (Pair None) id (add_item stops' ((initSemaphore b)\<lparr>sem := Some w'\<rparr>) y)"
    by (rule TryAdd_admits [OF fit w a])
  have 2: "TryAdd stops' b' y
      = map_outcome (Pair None) id (add_item stops' ((initSemaphore b')\<lparr>sem := Some w'\<rparr>) y)"
    by (rule TryAdd_admits) (use fit w a lim ib in simp_all)
  from 1 2 ib show "TryAdd stops' b' y = TryAdd stops' b y" by simp
  from 2 ib show "TryAdd stops' b' y
      = map_outcome (Pair None) id (add_item stops' ((initSemaphore b)\<lparr>sem := Some w'\<rparr>) y)"
    by simp
  have tk: "ticket b' = ticket b"
    using st by (auto simp: initSemaphore_fields)
  assume "ticket b \<noteq> None"
  then have "ticket ((initSemaphore b')\<lparr>sem := Some w'\<rparr>) \<noteq> None"
    by (simp add: tk initSemaphore_fields)
  from add_item_returns [OF this] obtain b2 where
    "add_item (True, True) ((initSemaphore b')\<lparr>sem := Some w'\<rparr>) y = Returns b2" by blast
  moreover have "TryAdd (True, True) b' y
    = map_outcome (Pair None) id
        (add_item (True, True) ((initSemaphore b')\<lparr>sem := Some w'\<rparr>) y)"
    by (rule TryAdd_admits) (use fit w a lim ib in simp_all)
  ultimately show "\<exists>b''. TryAdd (True, True) b' y = Returns (None, b'')" by simp
qed

lemma TryAdd_after_rejection_without_seal:
  "TryAdd (True, True) (NewBundler_item\<lparr>BundleSizeLimit := 100\<rparr>) (Item 0 200)
     = Returns (Some ErrOversize, NewBundler_item\<lparr>BundleSizeLimit := 100\<rparr>)
   \<and> \<not> (0 <s BundleSizeLimit (NewBundler_item\<lparr>BundleSizeLimit := 100\<rparr>)
          \<and> BundleSizeLimit (NewBundler_item\<lparr>BundleSizeLimit := 100\<rparr>) <s Size (Item 1 50))
   \<and> sem (initSemaphore (NewBundler_item\<lparr>BundleSizeLimit := 100\<rparr>))
       = Some (NewWeighted 1000000000)
   \<and> TryAcquire (NewWeighted 1000000000) (Size (Item 1 50))
       = Some \<lparr>wsize = 1000000000, cur = 50, waiters = 0\<rparr>
   \<and> map_outcome (\<lambda>r. (fst r, bsize (snd r), len (items (snd r)))) id
        (TryAdd (True, True) (NewBundler_item\<lparr>BundleSizeLimit := 100\<rparr>) (Item 1 50))
       = Returns (None, 50, 1)"
  using TryAdd_rejections_leave_no_trace [of "(True, True)" "NewBundler_item\<lparr>BundleSizeLimit := 100\<rparr>" "Item 0 200"]
  by (simp add: item_defs)

text \<open>
  C7. On a new bundler, \<open>TryAdd\<close> of an item of size 20000000 returns \<open>ErrOversize\<close>
  (the limit is 10000000) and leaves the bundler as it was. The next \<open>TryAdd\<close>, of an
  item of size 1000000, fits: it is within the limit and the credit is there. It
  reaches \<open>SizeThreshold\<close>, so \<open>add\<close> seals, and the call does not return nil: it
  panics on \<open>b.ticket.Next()\<close>, the ticket being nil, or, when the timer has fired
  meanwhile, parks on the send to \<open>timerCancel\<close>. The pair variant's \<open>Add\<close> rejects
  and then admits the same two sizes, returning nil with one bundle sealed.
\<close>

theorem TryAdd_fitting_item_after_rejection_panics:
  "TryAdd stops NewBundler_item (Item 0 20000000) = Returns (Some ErrOversize, NewBundler_item)
   \<and> Size (Item 1 1000000) \<le>s BundleSizeLimit NewBundler_item
   \<and> map_option cur
       (TryAcquire (NewWeighted (BufferSizeLimit NewBundler_item)) (Size (Item 1 1000000)))
     = Some 1000000
   \<and> TryAdd (s, True) NewBundler_item (Item 1 1000000) = Panics NilDereference
   \<and> map_outcome (\<lambda>r. ()) effects (TryAdd (s, False) NewBundler_item (Item 1 1000000))
     = Blocks [TimerNew, TimerReset, GoTimer, TimerStop False, CancelSend]
   \<and> Add_pair stops (NewBundler_pair :: item bundlerP) (Item 0 20000000) 20000000
     = Returns (Some ErrOversize, NewBundler_pair)
   \<and> map_outcome (\<lambda>r. (fst r, map tsize (spawned (snd r)))) (\<lambda>b. ())
       (Add_pair stops (NewBundler_pair :: item bundlerP) (Item 1 1000000) 1000000)
     = Returns (None, [1000000])"
proof -
  have a: "TryAdd stops NewBundler_item (Item 0 20000000)
      = Returns (Some ErrOversize, NewBundler_item)"
    by (simp add: item_defs)
  have b: "Size (Item 1 1000000) \<le>s BundleSizeLimit NewBundler_item"
    by (simp add: item_defs)
  have c: "map_option cur
       (TryAcquire (NewWeighted (BufferSizeLimit NewBundler_item)) (Size (Item 1 1000000)))
     = Some 1000000"
    by (simp add: item_defs)
  have d: "TryAdd (s, True) NewBundler_item (Item 1 1000000) = Panics NilDereference"
    by (simp add: item_defs)
  have e: "map_outcome (\<lambda>r. ()) effects (TryAdd (s, False) NewBundler_item (Item 1 1000000))
     = Blocks [TimerNew, TimerReset, GoTimer, TimerStop False, CancelSend]"
    by (simp add: item_defs)
  have f: "Add_pair stops (NewBundler_pair :: item bundlerP) (Item 0 20000000) 20000000
     = Returns (Some ErrOversize, NewBundler_pair)"
    by (simp add: pair_defs)
  have g: "map_outcome (\<lambda>r. (fst r, map tsize (spawned (snd r)))) (\<lambda>b. ())
       (Add_pair stops (NewBundler_pair :: item bundlerP) (Item 1 1000000) 1000000)
     = Returns (None, [1000000])"
    by (simp add: pair_defs)
  from a b c d e f g show ?thesis by blast
qed

section \<open>The size of a sealed bundle\<close>

lemma add_pair_preserves:
  assumes b: "P b"
    and fl: "\<And>s c. P c \<Longrightarrow> P (flushLocked_pair s c)"
    and arm: "\<And>c. P c \<Longrightarrow> P (armTimer c)"
    and app: "\<And>c. P c \<Longrightarrow> P (c\<lparr>store := fst (append1 (store c) (bundle c) x),
                 bundle := snd (append1 (store c) (bundle c) x), bsize := bsize c + sz\<rparr>)"
  shows "P (add_pair stops b x sz)"
proof -
  define b0 where "b0 = (if 0 <s BundleSizeLimit b \<and> BundleSizeLimit b <s bsize b + sz
                then flushLocked_pair (fst stops) b else b)"
  define b1 where "b1 = b0\<lparr>store := fst (append1 (store b0) (bundle b0) x),
     bundle := snd (append1 (store b0) (bundle b0) x), bsize := bsize b0 + sz\<rparr>"
  define b2 where "b2 = armTimer b1"
  define b3 where "b3 = (if int (len (bundle b2)) = sint (CountThreshold b2)
                then flushLocked_pair (snd stops) b2 else b2)"
  have r: "add_pair stops b x sz
     = (if SizeThreshold b3 \<le>s bsize b3 then flushLocked_pair (snd stops) b3 else b3)"
    by (simp add: add_pair_def b0_def b1_def b2_def b3_def Let_def)
  have "P b0" using b fl by (simp add: b0_def)
  then have "P b1" unfolding b1_def by (rule app)
  then have "P b2" unfolding b2_def by (rule arm)
  then have "P b3" using fl by (simp add: b3_def)
  then show ?thesis unfolding r using fl by simp
qed

lemma sized_flushLocked_pair:
  assumes "sized M (bundle b) b" "0 \<le> M"
  shows "sized M (bundle (flushLocked_pair stop b)) (flushLocked_pair stop b)"
  using assms by (auto simp: sized_def flushLocked_pair_def Let_def)

lemma bsize_flushLocked_pair:
  "sized M (bundle b) b \<Longrightarrow> bsize (flushLocked_pair stop b) = 0"
  by (auto simp: sized_def flushLocked_pair_def Let_def)

lemma config_flushLocked_pair [simp]: "config (flushLocked_pair stop b) = config b"
  by (simp add: config_def flushLocked_pair_def Let_def)

lemma config_armTimer [simp]: "config (armTimer b) = config b"
  by (simp add: config_def armTimer_def initTimer_def Let_def)

lemma config_initSemaphore [simp]: "config (initSemaphore b) = config b"
  by (cases "sem b") (simp_all add: config_def initSemaphore_def)

lemma sized_armTimer_pair:
  "sized M (bundle (armTimer b)) (armTimer b) = sized M (bundle b) b"
  by (simp add: sized_def armTimer_def initTimer_def Let_def)

lemma config_append_pair [simp]:
  "config (c\<lparr>store := h, bundle := s, bsize := z\<rparr>) = config c"
  by (simp add: config_def)

lemma config_add_pair [simp]: "config (add_pair stops b x sz) = config b"
  by (rule add_pair_preserves [where P = "\<lambda>c. config c = config b"]) simp_all

lemma limit_of_config: "config b' = config b \<Longrightarrow> BundleSizeLimit b' = BundleSizeLimit b"
  by (simp add: config_def)

lemma sized_add_pair:
  assumes s: "sized M (bundle b) b" and L: "0 <s BundleSizeLimit b"
    and LM: "sint (BundleSizeLimit b) \<le> M" and sz: "sint sz \<le> M"
  shows "sized M (bundle (add_pair stops b x sz)) (add_pair stops b x sz)"
proof -
  have M0: "0 \<le> M" using L LM by (simp add: word_sless_alt)
  define b0 where "b0 = (if 0 <s BundleSizeLimit b \<and> BundleSizeLimit b <s bsize b + sz
                then flushLocked_pair (fst stops) b else b)"
  define b1 where "b1 = b0\<lparr>store := fst (append1 (store b0) (bundle b0) x),
     bundle := snd (append1 (store b0) (bundle b0) x), bsize := bsize b0 + sz\<rparr>"
  define b2 where "b2 = armTimer b1"
  define b3 where "b3 = (if int (len (bundle b2)) = sint (CountThreshold b2)
                then flushLocked_pair (snd stops) b2 else b2)"
  have r: "add_pair stops b x sz
     = (if SizeThreshold b3 \<le>s bsize b3 then flushLocked_pair (snd stops) b3 else b3)"
    by (simp add: add_pair_def b0_def b1_def b2_def b3_def Let_def)
  have s0: "sized M (bundle b0) b0"
    using s M0 by (simp add: b0_def sized_flushLocked_pair)
  have z: "sint (bsize b0 + sz) \<le> M"
  proof (cases "0 <s BundleSizeLimit b \<and> BundleSizeLimit b <s bsize b + sz")
    case True
    then have "bsize b0 = 0" using s by (simp add: b0_def bsize_flushLocked_pair)
    then show ?thesis using sz by simp
  next
    case False
    then have "b0 = b" and "sint (bsize b + sz) \<le> sint (BundleSizeLimit b)"
      using L by (auto simp: b0_def word_sless_alt)
    then show ?thesis using LM by simp
  qed
  have l1: "len (bundle b1) \<noteq> 0"
    by (simp add: b1_def append1_def)
  have s1: "sized M (bundle b1) b1"
    using s0 z l1 by (simp add: sized_def b1_def)
  have s2: "sized M (bundle b2) b2"
    using s1 by (simp add: b2_def sized_armTimer_pair)
  have s3: "sized M (bundle b3) b3"
    using s2 M0 by (simp add: b3_def sized_flushLocked_pair)
  show ?thesis
    unfolding r using s3 M0 by (simp add: sized_flushLocked_pair)
qed


subsection \<open>The Item variant\<close>

lemma and_then_Returns:
  "(and_then r f = Returns y) = (\<exists>s. r = Returns s \<and> f s = Returns y)"
  by (cases r) (simp_all add: and_then_def)

lemma add_item_Returns_elim:
  assumes "add_item stops b x = Returns b'"
  obtains b0 b2 b3 where
    "(if 0 <s BundleSizeLimit b \<and> BundleSizeLimit b <s bsize b + Size x
      then flushLocked_item (fst stops) b else Returns b) = Returns b0"
    "b2 = armTimer (b0\<lparr>store := fst (append1 (store b0) (items b0) x),
           items := snd (append1 (store b0) (items b0) x), bsize := bsize b0 + Size x\<rparr>)"
    "(if sint (CountThreshold b2) \<le> int (len (items b2))
      then flushLocked_item (snd stops) b2 else Returns b2) = Returns b3"
    "(if SizeThreshold b3 \<le>s bsize b3
      then flushLocked_item (snd stops) b3 else Returns b3) = Returns b'"
  using assms unfolding add_item_def and_then_Returns Let_def by blast

lemma add_item_preserves:
  assumes r: "add_item stops b x = Returns b'" and b: "P b"
    and fl: "\<And>s c c'. P c \<Longrightarrow> flushLocked_item s c = Returns c' \<Longrightarrow> P c'"
    and arm: "\<And>c. P c \<Longrightarrow> P (armTimer c)"
    and app: "\<And>c. P c \<Longrightarrow> P (c\<lparr>store := fst (append1 (store c) (items c) x),
                 items := snd (append1 (store c) (items c) x), bsize := bsize c + Size x\<rparr>)"
  shows "P b'"
proof -
  from r obtain b0 b2 b3 where
    0: "(if 0 <s BundleSizeLimit b \<and> BundleSizeLimit b <s bsize b + Size x
      then flushLocked_item (fst stops) b else Returns b) = Returns b0"
    and 2: "b2 = armTimer (b0\<lparr>store := fst (append1 (store b0) (items b0) x),
           items := snd (append1 (store b0) (items b0) x), bsize := bsize b0 + Size x\<rparr>)"
    and 3: "(if sint (CountThreshold b2) \<le> int (len (items b2))
      then flushLocked_item (snd stops) b2 else Returns b2) = Returns b3"
    and 4: "(if SizeThreshold b3 \<le>s bsize b3
      then flushLocked_item (snd stops) b3 else Returns b3) = Returns b'"
    by (rule add_item_Returns_elim)
  have "P b0" using 0 b fl by (auto split: if_splits)
  then have "P b2" unfolding 2 by (intro arm app)
  then have "P b3" using 3 fl by (auto split: if_splits)
  then show ?thesis using 4 fl by (auto split: if_splits)
qed

lemma flushLocked_item_Returns:
  "(flushLocked_item stop b = Returns b') =
     ((timerRunning b \<longrightarrow> stop) \<and>
      (let b1 = (if timerRunning b
                 then (initTimer b)\<lparr>effects := effects (initTimer b) @ [TimerStop stop, CancelSend],
                        timerRunning := False\<rparr>
                 else b)
       in if len (items b1) = 0 then b' = b1
          else (\<exists>t. ticket b1 = Some t \<and>
                 b' = b1\<lparr>items := itemsZero b1, bsize := 0, ticket := Some (snd (Next t)),
                         spawned := spawned b1 @
                           [\<lparr>tticket = fst (Next t), tbundle = items b1,
                             tsize = bsize b1, tpc = AtAcquire\<rparr>]\<rparr>)))"
  by (cases "ticket b")
     (auto simp: flushLocked_item_def and_then_def Let_def initTimer_def)

lemma sized_flushLocked_item:
  assumes "sized M (items b) b" "0 \<le> M" "flushLocked_item stop b = Returns b'"
  shows "sized M (items b') b' \<and> (bsize b' = 0) \<and> config b' = config b"
  using assms
  by (auto simp: flushLocked_item_Returns sized_def Let_def initTimer_def config_def
       split: if_splits)

lemma sized_armTimer_item:
  "sized M (items (armTimer b)) (armTimer b) = sized M (items b) b"
  by (simp add: sized_def armTimer_def initTimer_def Let_def)

lemma config_append_item [simp]:
  "config (c\<lparr>store := h, items := s, bsize := z\<rparr>) = config c"
  by (simp add: config_def)

lemma config_add_item:
  "add_item stops b x = Returns b' \<Longrightarrow> config b' = config b"
  by (erule add_item_preserves [where P = "\<lambda>c. config c = config b"])
     (simp_all add: flushLocked_item_Returns Let_def, auto simp: config_def initTimer_def split: if_splits)

lemma sized_add_item:
  assumes s: "sized M (items b) b" and L: "0 <s BundleSizeLimit b"
    and LM: "sint (BundleSizeLimit b) \<le> M" and sz: "sint (Size x) \<le> M"
    and r: "add_item stops b x = Returns b'"
  shows "sized M (items b') b'"
proof -
  have M0: "0 \<le> M" using L LM by (simp add: word_sless_alt)
  from r obtain b0 b2 b3 where
    0: "(if 0 <s BundleSizeLimit b \<and> BundleSizeLimit b <s bsize b + Size x
      then flushLocked_item (fst stops) b else Returns b) = Returns b0"
    and 2: "b2 = armTimer (b0\<lparr>store := fst (append1 (store b0) (items b0) x),
           items := snd (append1 (store b0) (items b0) x), bsize := bsize b0 + Size x\<rparr>)"
    and 3: "(if sint (CountThreshold b2) \<le> int (len (items b2))
      then flushLocked_item (snd stops) b2 else Returns b2) = Returns b3"
    and 4: "(if SizeThreshold b3 \<le>s bsize b3
      then flushLocked_item (snd stops) b3 else Returns b3) = Returns b'"
    by (rule add_item_Returns_elim)
  have s0: "sized M (items b0) b0"
    using 0 s M0 sized_flushLocked_item by (auto split: if_splits)
  have z: "sint (bsize b0 + Size x) \<le> M"
  proof (cases "0 <s BundleSizeLimit b \<and> BundleSizeLimit b <s bsize b + Size x")
    case True
    then have "bsize b0 = 0" using 0 s M0 sized_flushLocked_item by auto
    then show ?thesis using sz by simp
  next
    case False
    then have "b0 = b" and "sint (bsize b + Size x) \<le> sint (BundleSizeLimit b)"
      using L 0 by (auto simp: word_sless_alt)
    then show ?thesis using LM by simp
  qed
  have s2: "sized M (items b2) b2"
    unfolding 2 sized_armTimer_item using s0 z by (simp add: sized_def append1_def)
  have s3: "sized M (items b3) b3"
    using 3 s2 M0 sized_flushLocked_item by (auto split: if_splits)
  show ?thesis
    using 4 s3 M0 sized_flushLocked_item by (auto split: if_splits)
qed


subsection \<open>The steps of an execution\<close>

lemma acquire_Returns:
  "(acquire b tk = Returns b') =
     (\<not> mutex4t b \<and> tk = nextHandled4t b \<and> int (card (active4t b)) < sint (HandlerLimit b)
      \<and> b' = b\<lparr>mutex4t := False, cond4t := cond4t b + 1,
               active4t := insert tk (active4t b), nextHandled4t := nextHandled4t b + 1\<rparr>)"
  by (cases "mutex4t b") (auto simp: acquire_def acquire_loop_def)

lemma release_Returns:
  "(release b tk = Returns b') =
     (\<not> mutex4t b \<and> tk \<in> active4t b
      \<and> b' = b\<lparr>mutex4t := False, cond4t := cond4t b + 1, active4t := active4t b - {tk}\<rparr>)"
  by (cases "mutex4t b") (auto simp: release_def)

lemma waitAll_Returns:
  "(waitAll b n = Returns b') =
     (\<not> mutex4t b \<and> n \<le> nextHandled4t b \<and> n \<le> min_active (active4t b)
      \<and> b' = b\<lparr>mutex4t := False\<rparr>)"
  by (cases "mutex4t b") (auto simp: waitAll_def waitAll_loop_def)

lemma acquire_ok:
  "\<not> mutex4t b \<Longrightarrow> int (card (active4t b)) < sint (HandlerLimit b) \<Longrightarrow>
   acquire b (nextHandled4t b)
     = Returns (b\<lparr>mutex4t := False, cond4t := cond4t b + 1,
               active4t := insert (nextHandled4t b) (active4t b),
               nextHandled4t := nextHandled4t b + 1\<rparr>)"
  by (simp add: acquire_Returns)

lemma release_ok:
  "\<not> mutex4t b \<Longrightarrow> tk \<in> active4t b \<Longrightarrow>
   release b tk
     = Returns (b\<lparr>mutex4t := False, cond4t := cond4t b + 1, active4t := active4t b - {tk}\<rparr>)"
  by (simp add: release_Returns)

lemma dispatch_acquire_Some:
  "(dispatch_acquire k b = Some b') =
     (at_pc b k AtAcquire \<and> \<not> mutex4t b \<and> tticket (spawned b ! k) = nextHandled4t b
      \<and> int (card (active4t b)) < sint (HandlerLimit b)
      \<and> b' = set_pc k InHandler
                (b\<lparr>mutex4t := False, cond4t := cond4t b + 1,
                   active4t := insert (tticket (spawned b ! k)) (active4t b),
                   nextHandled4t := nextHandled4t b + 1\<rparr>))"
  by (auto simp: dispatch_acquire_def acquire_Returns acquire_ok split: outcome.splits)

lemma sem_release_Some:
  "(sem_release k b = Some b') =
     (\<exists>w w'. sem b = Some w \<and> ReleaseW w (tsize (spawned b ! k)) = Some w'
        \<and> b' = b\<lparr>sem := Some w'\<rparr>)"
  by (auto simp: sem_release_def split: option.splits)

lemma dispatch_release_Some:
  "(dispatch_release k b = Some b') =
     (at_pc b k HandlerReturned \<and> \<not> mutex4t b \<and> tticket (spawned b ! k) \<in> active4t b
      \<and> (\<exists>w w'. sem b = Some w \<and> ReleaseW w (tsize (spawned b ! k)) = Some w'
           \<and> b' = set_pc k Finished
                (b\<lparr>sem := Some w', mutex4t := False, cond4t := cond4t b + 1,
                   active4t := active4t b - {tticket (spawned b ! k)}\<rparr>)))"
proof (cases "sem_release k b")
  case None
  then show ?thesis
    using sem_release_Some [of k b] by (auto simp: dispatch_release_def)
next
  case (Some b1)
  then obtain w w' where w: "sem b = Some w" "ReleaseW w (tsize (spawned b ! k)) = Some w'"
    "b1 = b\<lparr>sem := Some w'\<rparr>"
    by (auto simp: sem_release_Some)
  show ?thesis
    using Some w
    by (cases "release b1 (tticket (spawned b1 ! k))")
       (auto simp: dispatch_release_def release_Returns release_ok)
qed

lemma Add_pair_Returns:
  "(Add_pair stops b x sz = Returns r) =
     (if 0 <s BundleSizeLimit b \<and> BundleSizeLimit b <s sz then r = (Some ErrOversize, b)
      else (\<exists>w. sem (initSemaphore b) = Some w \<and>
             (case TryAcquire w sz of
                None \<Rightarrow> r = (Some ErrOverflow, initSemaphore b)
              | Some w' \<Rightarrow> r = (None, add_pair stops ((initSemaphore b)\<lparr>sem := Some w'\<rparr>) x sz))))"
  by (auto simp: Add_pair_def Let_def split: option.splits)

lemma set_pc_fields [simp]:
  "spawned (set_pc k p b) = (spawned b)[k := (spawned b ! k)\<lparr>tpc := p\<rparr>]"
  "bsize (set_pc k p b) = bsize b" "store (set_pc k p b) = store b"
  "sem (set_pc k p b) = sem b" "effects (set_pc k p b) = effects b"
  "timerRunning (set_pc k p b) = timerRunning b"
  "config (set_pc k p b) = config b"
  by (simp_all add: set_pc_def config_def)

lemma set_pc_more [simp]:
  "bundle (set_pc k p b) = bundle b" "bundleZero (set_pc k p b) = bundleZero b"
  "mutex4t (set_pc k p b) = mutex4t b"
  "active4t (set_pc k p b) = active4t b" "next4t (set_pc k p b) = next4t b"
  "nextHandled4t (set_pc k p b) = nextHandled4t b"
  by (simp_all add: set_pc_def)

lemma sized_cong:
  "len acc' = len acc \<Longrightarrow> bsize b' = bsize b \<Longrightarrow> map tsize (spawned b') = map tsize (spawned b)
   \<Longrightarrow> sized M acc' b' = sized M acc b"
proof -
  assume a: "len acc' = len acc" "bsize b' = bsize b"
    and m: "map tsize (spawned b') = map tsize (spawned b)"
  have i: "(\<forall>t \<in> set sp. sint (tsize t) \<le> M) = (\<forall>z \<in> tsize ` set sp. sint z \<le> M)"
    for sp :: "task list"
    by blast
  have "tsize ` set (spawned b') = tsize ` set (spawned b)"
    using m by (metis set_map)
  then show ?thesis using a unfolding sized_def i by simp
qed

lemma map_tsize_update [simp]:
  "map tsize (sp[k := (sp ! k)\<lparr>tpc := p\<rparr>]) = map tsize sp"
  by (cases "k < length sp") (simp_all add: map_update list_update_same_conv list_update_beyond)


subsection \<open>Executions keep the size invariant\<close>

lemma sized_initSemaphore [simp]:
  "sized M acc (initSemaphore b) = sized M acc b"
  by (cases "sem b") (simp_all add: sized_def initSemaphore_def)

lemma bundle_initSemaphore [simp]: "bundle (initSemaphore b) = bundle b"
  by (cases "sem b") (simp_all add: initSemaphore_def)

lemma items_initSemaphore [simp]: "items (initSemaphore b) = items b"
  by (cases "sem b") (simp_all add: initSemaphore_def)

lemma sized_sem_update [simp]: "sized M acc (b\<lparr>sem := w\<rparr>) = sized M acc b"
  by (simp add: sized_def)

lemma config_sem_update [simp]: "config (b\<lparr>sem := w\<rparr>) = config b"
  by (simp add: config_def)

lemma config_updates [simp]:
  "config (b\<lparr>mutex4t := m\<rparr>) = config b" "config (b\<lparr>cond4t := c\<rparr>) = config b"
  "config (b\<lparr>active4t := a\<rparr>) = config b" "config (b\<lparr>nextHandled4t := n\<rparr>) = config b"
  "config (b\<lparr>next4t := n\<rparr>) = config b" "config (b\<lparr>spawned := sp\<rparr>) = config b"
  by (simp_all add: config_def)

lemma sized_step:
  assumes s: "sized (sint (BundleSizeLimit b)) (bundle b) b" and L: "0 <s BundleSizeLimit b"
    and st: "step b e = Some b'"
  shows "sized (sint (BundleSizeLimit b)) (bundle b') b' \<and> config b' = config b"
proof (cases e)
  case (EAdd stops x sz)
  show ?thesis
  proof (cases "BundleSizeLimit b <s sz")
    case True
    then show ?thesis using st s L EAdd
      by (auto simp: Add_pair_Returns split: outcome.splits)
  next
    case False
    then have sz: "sint sz \<le> sint (BundleSizeLimit b)"
      by (simp add: word_sless_alt)
    have l: "BundleSizeLimit (initSemaphore b\<lparr>sem := Some w\<rparr>) = BundleSizeLimit b" for w
      by (rule limit_of_config) simp
    have "sized (sint (BundleSizeLimit b))
            (bundle (add_pair stops ((initSemaphore b)\<lparr>sem := Some w\<rparr>) x sz))
            (add_pair stops ((initSemaphore b)\<lparr>sem := Some w\<rparr>) x sz)" for w
      by (rule sized_add_pair) (use s L sz l in simp_all)
    then show ?thesis using st s False EAdd
      by (auto simp: Add_pair_Returns split: outcome.splits option.splits)
  qed
next
  case (EFlush stop)
  have "0 \<le> sint (BundleSizeLimit b)" using L by (simp add: word_sless_alt)
  then show ?thesis using st s EFlush
    by (auto simp: Flush_seal_def Let_def sized_flushLocked_pair)
next
  case (EAcquire k)
  then show ?thesis using st s
    by (auto simp: dispatch_acquire_Some
          intro!: sized_cong [THEN iffD2, OF _ _ _ s])
next
  case (EHandler k)
  then show ?thesis using st s
    by (auto simp: handler_returns_def split: if_splits
          intro!: sized_cong [THEN iffD2, OF _ _ _ s])
next
  case (ERelease k)
  then show ?thesis using st s
    by (auto simp: dispatch_release_Some
          intro!: sized_cong [THEN iffD2, OF _ _ _ s])
qed

lemma sized_run:
  "sized (sint (BundleSizeLimit b)) (bundle b) b \<Longrightarrow> 0 <s BundleSizeLimit b \<Longrightarrow>
   run b evs = Some b' \<Longrightarrow>
   sized (sint (BundleSizeLimit b)) (bundle b') b' \<and> config b' = config b"
proof (induction evs arbitrary: b)
  case Nil
  then show ?case by simp
next
  case (Cons e evs)
  from Cons.prems(3) obtain c where c: "step b e = Some c" "run c evs = Some b'"
    by (auto split: option.splits)
  from sized_step [OF Cons.prems(1,2) c(1)]
  have 1: "sized (sint (BundleSizeLimit b)) (bundle c) c" and 2: "config c = config b"
    by simp_all
  have l: "BundleSizeLimit c = BundleSizeLimit b" by (rule limit_of_config [OF 2])
  from Cons.IH [of c] 1 c(2) Cons.prems(2) l 2 show ?case by simp
qed

lemma admitted_Returns:
  "(map_outcome (Pair None) id r = Returns (a, b')) = (a = None \<and> r = Returns b')"
  by (cases r) auto

lemma sized_stepI:
  assumes s: "sized (sint (BundleSizeLimit b)) (items b) b" and L: "0 <s BundleSizeLimit b"
    and st: "stepI b e = Some b'"
  shows "sized (sint (BundleSizeLimit b)) (items b') b' \<and> config b' = config b"
proof (cases e)
  case (ITryAdd stops x)
  show ?thesis
  proof (cases "BundleSizeLimit b <s Size x")
    case True
    then show ?thesis using st s L ITryAdd
      by (auto simp: TryAdd_def split: outcome.splits)
  next
    case False
    then have sz: "sint (Size x) \<le> sint (BundleSizeLimit b)"
      by (simp add: word_sless_alt)
    have l: "BundleSizeLimit (initSemaphore b\<lparr>sem := Some w\<rparr>) = BundleSizeLimit b" for w
      by (rule limit_of_config) simp
    have "sized (sint (BundleSizeLimit b)) (items c) c \<and> config c = config b"
      if "add_item stops ((initSemaphore b)\<lparr>sem := Some w\<rparr>) x = Returns c" for w c
    proof
      show "sized (sint (BundleSizeLimit b)) (items c) c"
        by (rule sized_add_item [OF _ _ _ _ that]) (use s L sz l in simp_all)
      show "config c = config b" using config_add_item [OF that] by simp
    qed
    then show ?thesis using st s False ITryAdd
      by (auto simp: TryAdd_def Let_def admitted_Returns split: outcome.splits option.splits)
  qed
next
  case (IFlush stop)
  have "0 \<le> sint (BundleSizeLimit b)" using L by (simp add: word_sless_alt)
  then show ?thesis using st s IFlush sized_flushLocked_item [of "sint (BundleSizeLimit b)" b stop]
    by (auto simp: Flush_seal_item_def and_then_def split: outcome.splits option.splits)
qed

lemma sized_runI:
  "sized (sint (BundleSizeLimit b)) (items b) b \<Longrightarrow> 0 <s BundleSizeLimit b \<Longrightarrow>
   runI b evs = Some b' \<Longrightarrow>
   sized (sint (BundleSizeLimit b)) (items b') b' \<and> config b' = config b"
proof (induction evs arbitrary: b)
  case Nil
  then show ?case by simp
next
  case (Cons e evs)
  from Cons.prems(3) obtain c where c: "stepI b e = Some c" "runI c evs = Some b'"
    by (auto split: option.splits)
  from sized_stepI [OF Cons.prems(1,2) c(1)]
  have 1: "sized (sint (BundleSizeLimit b)) (items c) c" and 2: "config c = config b"
    by simp_all
  have l: "BundleSizeLimit c = BundleSizeLimit b" by (rule limit_of_config [OF 2])
  from Cons.IH [of c] 1 c(2) Cons.prems(2) l 2 show ?case by simp
qed

lemma sized_adds_pair:
  "sized M (bundle b) b \<Longrightarrow> 0 <s BundleSizeLimit b \<Longrightarrow> sint (BundleSizeLimit b) \<le> M \<Longrightarrow>
   \<forall>c \<in> set cs. sint (snd (snd c)) \<le> M \<Longrightarrow>
   sized M (bundle (adds_pair b cs)) (adds_pair b cs)"
proof (induction cs arbitrary: b)
  case Nil
  then show ?case by simp
next
  case (Cons c cs)
  let ?b = "add_pair (fst c) b (fst (snd c)) (snd (snd c))"
  have 1: "sized M (bundle ?b) ?b"
    by (rule sized_add_pair) (use Cons.prems in simp_all)
  have l: "BundleSizeLimit ?b = BundleSizeLimit b" by (rule limit_of_config) simp
  from Cons.IH [of ?b] 1 l Cons.prems show ?case by simp
qed

lemma sized_adds_item:
  "sized M (items b) b \<Longrightarrow> 0 <s BundleSizeLimit b \<Longrightarrow> sint (BundleSizeLimit b) \<le> M \<Longrightarrow>
   \<forall>c \<in> set cs. sint (Size (snd c)) \<le> M \<Longrightarrow> adds_item b cs = Some b' \<Longrightarrow>
   sized M (items b') b'"
proof (induction cs arbitrary: b)
  case Nil
  then show ?case by simp
next
  case (Cons c cs)
  from Cons.prems(5) obtain d where d: "add_item (fst c) b (snd c) = Returns d"
    "adds_item d cs = Some b'"
    by (auto split: outcome.splits)
  have 1: "sized M (items d) d"
    by (rule sized_add_item [OF _ _ _ _ d(1)]) (use Cons.prems in simp_all)
  have l: "BundleSizeLimit d = BundleSizeLimit b"
    by (rule limit_of_config [OF config_add_item [OF d(1)]])
  from Cons.IH [of d] 1 l d(2) Cons.prems show ?case by simp
qed

lemma fresh_pair_sized: "fresh_pair b \<Longrightarrow> 0 \<le> M \<Longrightarrow> sized M (bundle b) b"
proof -
  assume "fresh_pair b" and M: "0 \<le> M"
  then have e: "b = NewBundler_pair\<lparr>TimeThreshold := TimeThreshold b,
            CountThreshold := CountThreshold b,
            SizeThreshold := SizeThreshold b, BundleSizeLimit := BundleSizeLimit b,
            BufferSizeLimit := BufferSizeLimit b, HandlerLimit := HandlerLimit b\<rparr>"
    by (simp add: fresh_pair_def)
  have "bsize b = 0" by (subst e) (simp add: NewBundler_pair_def)
  moreover have "spawned b = []" by (subst e) (simp add: NewBundler_pair_def)
  ultimately show ?thesis using M by (simp add: sized_def)
qed

lemma fresh_item_sized: "fresh_item b \<Longrightarrow> 0 \<le> M \<Longrightarrow> sized M (items b) b"
proof -
  assume "fresh_item b" and M: "0 \<le> M"
  then have e: "b = NewBundler_item\<lparr>TimeThreshold := TimeThreshold b,
            CountThreshold := CountThreshold b,
            SizeThreshold := SizeThreshold b, BundleSizeLimit := BundleSizeLimit b,
            BufferSizeLimit := BufferSizeLimit b, HandlerLimit := HandlerLimit b,
            ticket := ticket b\<rparr>"
    by (simp add: fresh_item_def)
  have "bsize b = 0" by (subst e) (simp add: NewBundler_item_def)
  moreover have "spawned b = []" by (subst e) (simp add: NewBundler_item_def)
  ultimately show ?thesis using M by (simp add: sized_def)
qed


subsection \<open>What the Item variant's size counts\<close>

lemma growcap_gt: "c < growcap c"
  by (simp add: growcap_def)

lemma contents_append1:
  assumes "fits h s"
  shows "contents (fst (append1 h s x)) (snd (append1 h s x)) = contents h s @ [Some x]"
proof (cases "len s < cap s")
  case True
  then have "len s < length (h ! ptr s)" using assms by (simp add: fits_def)
  then show ?thesis using True assms
    by (simp add: contents_def append1_def fits_def take_Suc_conv_app_nth)
next
  case False
  then have "len s \<le> length (h ! ptr s)" using assms by (simp add: fits_def)
  then show ?thesis using False
    by (simp add: contents_def append1_def)
qed

lemma fits_append1_self:
  assumes "fits h s"
  shows "fits (fst (append1 h s x)) (snd (append1 h s x))"
proof (cases "len s < cap s")
  case True
  then show ?thesis using assms by (simp add: append1_def fits_def)
next
  case False
  then have "len s = cap s" using assms by (simp add: fits_def)
  then show ?thesis using False assms growcap_gt [of "cap s"]
    by (simp add: append1_def fits_def)
qed

lemma fits_append1_other:
  assumes "fits h s" "fits h z"
  shows "fits (fst (append1 h s x)) z"
proof (cases "len s < cap s")
  case True
  then show ?thesis using assms
    by (cases "ptr z = ptr s") (simp_all add: append1_def fits_def)
next
  case False
  then show ?thesis using assms by (simp add: append1_def fits_def nth_append)
qed

lemma cumulative_snoc: "cumulative (cs @ [Some x]) = cumulative cs + Size x"
  by (simp add: cumulative_def)

lemma accounted_append:
  assumes "accounted c"
  shows "accounted (c\<lparr>store := fst (append1 (store c) (items c) x),
                 items := snd (append1 (store c) (items c) x), bsize := bsize c + Size x\<rparr>)"
  using assms
  by (simp add: accounted_def contents_append1 fits_append1_self fits_append1_other
        cumulative_snoc)

lemma accounted_flushLocked_item:
  "accounted c \<Longrightarrow> flushLocked_item s c = Returns c' \<Longrightarrow> accounted c'"
  by (auto simp: flushLocked_item_Returns accounted_def Let_def initTimer_def
        contents_def cumulative_def split: if_splits)

lemma accounted_armTimer [simp]: "accounted (armTimer c) = accounted c"
  by (simp add: accounted_def armTimer_def initTimer_def Let_def)

lemma accounted_add_item:
  "accounted b \<Longrightarrow> add_item stops b x = Returns b' \<Longrightarrow> accounted b'"
  by (erule add_item_preserves [where P = accounted, rotated])
     (auto simp: accounted_append accounted_flushLocked_item)

lemma accounted_initSemaphore [simp]: "accounted (initSemaphore b) = accounted b"
  by (cases "sem b") (simp_all add: accounted_def initSemaphore_def)

lemma accounted_sem_update [simp]: "accounted (b\<lparr>sem := w\<rparr>) = accounted b"
  by (simp add: accounted_def)

lemma accounted_stepI:
  assumes "accounted b" "stepI b e = Some b'"
  shows "accounted b'"
proof (cases e)
  case (ITryAdd stops x)
  have "accounted c" if "add_item stops ((initSemaphore b)\<lparr>sem := Some w\<rparr>) x = Returns c" for w c
    by (rule accounted_add_item [OF _ that]) (use assms in simp)
  then show ?thesis using assms ITryAdd
    by (auto simp: TryAdd_def Let_def admitted_Returns split: outcome.splits option.splits if_splits)
next
  case (IFlush stop)
  then show ?thesis using assms accounted_flushLocked_item [of b stop]
    by (auto simp: Flush_seal_item_def and_then_def split: outcome.splits option.splits)
qed

lemma accounted_runI:
  "accounted b \<Longrightarrow> runI b evs = Some b' \<Longrightarrow> accounted b'"
proof (induction evs arbitrary: b)
  case Nil
  then show ?case by simp
next
  case (Cons e evs)
  from Cons.prems(2) obtain c where c: "stepI b e = Some c" "runI c evs = Some b'"
    by (auto split: option.splits)
  from Cons.IH [OF accounted_stepI [OF Cons.prems(1) c(1)] c(2)] show ?case .
qed

lemma fresh_item_accounted: "fresh_item b \<Longrightarrow> accounted b"
proof -
  assume "fresh_item b"
  then have e: "b = NewBundler_item\<lparr>TimeThreshold := TimeThreshold b,
            CountThreshold := CountThreshold b,
            SizeThreshold := SizeThreshold b, BundleSizeLimit := BundleSizeLimit b,
            BufferSizeLimit := BufferSizeLimit b, HandlerLimit := HandlerLimit b,
            ticket := ticket b\<rparr>"
    by (simp add: fresh_item_def)
  show ?thesis
    by (subst e)
       (simp add: NewBundler_item_def accounted_def fits_def make_slice_def contents_def
          cumulative_def)
qed

text \<open>
  The Item variant at the seal: the size handed to the dispatch goroutine is the
  cumulative size of the slice handed to it, as the store stands at that moment.
\<close>

lemma flushLocked_item_seals_cumulative:
  assumes "accounted b" "flushLocked_item stop b = Returns b'" "len (items b) \<noteq> 0"
  shows "spawned b' = spawned b @ [last (spawned b')]
         \<and> tsize (last (spawned b')) = cumulative (contents (store b') (tbundle (last (spawned b'))))"
  using assms
  by (auto simp: flushLocked_item_Returns accounted_def Let_def initTimer_def split: if_splits)

subsection \<open>The bound\<close>

lemma Max_bound_ge:
  "finite A \<Longrightarrow> a \<le> Max (insert a A)" "finite A \<Longrightarrow> x \<in> A \<Longrightarrow> x \<le> Max (insert a A)"
  by simp_all

text \<open>
  C2. With a positive \<open>BundleSizeLimit\<close>, in every execution of either variant from a
  new bundler every sealed bundle handed to a dispatch goroutine, and the accumulator
  itself, has size at most \<open>BundleSizeLimit\<close> (the entry points admit no larger item).
  When \<open>add\<close> is called directly with items of any size, every sealed bundle has size
  at most the larger of \<open>BundleSizeLimit\<close> and the largest item's size. Sizes are Go
  \<open>int\<close>s, compared as the program compares them; the size is the one taken at the
  seal, which in the Item variant is the cumulative \<open>Size()\<close> of the items sealed.
\<close>

theorem sealed_bundle_size_bounded:
  "(fresh_pair bp \<and> 0 <s BundleSizeLimit bp \<and> run bp evs = Some bp' \<longrightarrow>
      (\<forall>t \<in> set (spawned bp'). tsize t \<le>s BundleSizeLimit bp)
      \<and> bsize bp' \<le>s BundleSizeLimit bp)
   \<and> (fresh_item bi \<and> 0 <s BundleSizeLimit bi \<and> runI bi evsI = Some bi' \<longrightarrow>
      (\<forall>t \<in> set (spawned bi'). tsize t \<le>s BundleSizeLimit bi)
      \<and> bsize bi' \<le>s BundleSizeLimit bi
      \<and> bsize bi' = cumulative (contents (store bi') (items bi')))
   \<and> (fresh_pair bp \<and> 0 <s BundleSizeLimit bp \<longrightarrow>
      (\<forall>t \<in> set (spawned (adds_pair bp cs)).
         sint (tsize t)
           \<le> Max (insert (sint (BundleSizeLimit bp)) ((\<lambda>c. sint (snd (snd c))) ` set cs))))
   \<and> (fresh_item bi \<and> 0 <s BundleSizeLimit bi \<and> adds_item bi csI = Some bi'' \<longrightarrow>
      (\<forall>t \<in> set (spawned bi'').
         sint (tsize t)
           \<le> Max (insert (sint (BundleSizeLimit bi)) ((\<lambda>c. sint (Size (snd c))) ` set csI))))"
proof (intro conjI impI)
  assume a: "fresh_pair bp \<and> 0 <s BundleSizeLimit bp \<and> run bp evs = Some bp'"
  then have M: "0 \<le> sint (BundleSizeLimit bp)" by (simp add: word_sless_alt)
  from a sized_run [OF fresh_pair_sized [OF _ M]]
  have "sized (sint (BundleSizeLimit bp)) (bundle bp') bp'" by blast
  then show "\<forall>t \<in> set (spawned bp'). tsize t \<le>s BundleSizeLimit bp"
    and "bsize bp' \<le>s BundleSizeLimit bp"
    by (simp_all add: sized_def word_sle_eq)
next
  assume a: "fresh_item bi \<and> 0 <s BundleSizeLimit bi \<and> runI bi evsI = Some bi'"
  then have M: "0 \<le> sint (BundleSizeLimit bi)" by (simp add: word_sless_alt)
  from a sized_runI [OF fresh_item_sized [OF _ M]]
  have "sized (sint (BundleSizeLimit bi)) (items bi') bi'" by blast
  then show "\<forall>t \<in> set (spawned bi'). tsize t \<le>s BundleSizeLimit bi"
    and "bsize bi' \<le>s BundleSizeLimit bi"
    by (simp_all add: sized_def word_sle_eq)
  from a accounted_runI [OF fresh_item_accounted]
  have "accounted bi'" by blast
  then show "bsize bi' = cumulative (contents (store bi') (items bi'))"
    by (simp add: accounted_def)
next
  let ?M = "Max (insert (sint (BundleSizeLimit bp)) ((\<lambda>c. sint (snd (snd c))) ` set cs))"
  assume a: "fresh_pair bp \<and> 0 <s BundleSizeLimit bp"
  then have L: "0 \<le> sint (BundleSizeLimit bp)" by (simp add: word_sless_alt)
  have 1: "sint (BundleSizeLimit bp) \<le> ?M" by (rule Max_bound_ge) simp
  have 2: "\<forall>c \<in> set cs. sint (snd (snd c)) \<le> ?M"
    by (auto intro!: Max_bound_ge(2))
  have M0: "0 \<le> ?M" using L 1 by linarith
  from a have fp: "fresh_pair bp" and pos: "0 <s BundleSizeLimit bp" by simp_all
  have "sized ?M (bundle (adds_pair bp cs)) (adds_pair bp cs)"
    by (rule sized_adds_pair [OF fresh_pair_sized [OF fp M0] pos 1 2])
  then show "\<forall>t \<in> set (spawned (adds_pair bp cs)). sint (tsize t) \<le> ?M"
    by (simp add: sized_def)
next
  let ?M = "Max (insert (sint (BundleSizeLimit bi)) ((\<lambda>c. sint (Size (snd c))) ` set csI))"
  assume a: "fresh_item bi \<and> 0 <s BundleSizeLimit bi \<and> adds_item bi csI = Some bi''"
  then have L: "0 \<le> sint (BundleSizeLimit bi)" by (simp add: word_sless_alt)
  have 1: "sint (BundleSizeLimit bi) \<le> ?M" by (rule Max_bound_ge) simp
  have 2: "\<forall>c \<in> set csI. sint (Size (snd c)) \<le> ?M"
    by (auto intro!: Max_bound_ge(2))
  have M0: "0 \<le> ?M" using L 1 by linarith
  from a have fp: "fresh_item bi" and pos: "0 <s BundleSizeLimit bi"
    and r: "adds_item bi csI = Some bi''" by simp_all
  have "sized ?M (items bi'') bi''"
    by (rule sized_adds_item [OF fresh_item_sized [OF fp M0] pos 1 2 r])
  then show "\<forall>t \<in> set (spawned bi''). sint (tsize t) \<le> ?M"
    by (simp add: sized_def)
qed


theorem sealed_bundle_size_witness:
  "fresh_pair (NewBundler_pair\<lparr>CountThreshold := 100, SizeThreshold := 10000,
                 BundleSizeLimit := 100\<rparr> :: nat bundlerP)
   \<and> 0 <s BundleSizeLimit (NewBundler_pair\<lparr>CountThreshold := 100, SizeThreshold := 10000,
                 BundleSizeLimit := 100\<rparr> :: nat bundlerP)
   \<and> map_option (map tsize \<circ> spawned)
       (run (NewBundler_pair\<lparr>CountThreshold := 100, SizeThreshold := 10000,
                             BundleSizeLimit := 100\<rparr>)
          [EAdd (True, True) (1::nat) 60, EAdd (True, True) 2 60, EAdd (True, True) 3 60,
           EFlush True])
     = Some [60, 60, 60]
   \<and> fresh_item (NewBundler_item\<lparr>CountThreshold := 100, SizeThreshold := 10000,
                 BundleSizeLimit := 100, ticket := Some (NewTicketer 1)\<rparr>)
   \<and> map_option (map tsize \<circ> spawned)
       (runI (NewBundler_item\<lparr>CountThreshold := 100, SizeThreshold := 10000,
                             BundleSizeLimit := 100, ticket := Some (NewTicketer 1)\<rparr>)
          [ITryAdd (True, True) (Item 1 60), ITryAdd (True, True) (Item 2 60),
           ITryAdd (True, True) (Item 3 60), IFlush True])
     = Some [60, 60, 60]
   \<and> (map tsize \<circ> spawned)
       (adds_pair (NewBundler_pair\<lparr>CountThreshold := 100, SizeThreshold := 10000,
                             BundleSizeLimit := 100\<rparr>)
          [((True, True), (1::nat), 60), ((True, True), 2, 200), ((True, True), 3, 60)])
     = [60, 200]
   \<and> map_option (map tsize \<circ> spawned)
       (adds_item (NewBundler_item\<lparr>CountThreshold := 100, SizeThreshold := 10000,
                             BundleSizeLimit := 100, ticket := Some (NewTicketer 1)\<rparr>)
          [((True, True), Item 1 60), ((True, True), Item 2 200), ((True, True), Item 3 60)])
     = Some [60, 200]"
  using sealed_bundle_size_bounded
    [of "NewBundler_pair\<lparr>CountThreshold := 100, SizeThreshold := 10000,
                 BundleSizeLimit := 100\<rparr> :: nat bundlerP"
        "[EAdd (True, True) (1::nat) 60, EAdd (True, True) 2 60, EAdd (True, True) 3 60,
           EFlush True]"
        "the (run (NewBundler_pair\<lparr>CountThreshold := 100, SizeThreshold := 10000,
                             BundleSizeLimit := 100\<rparr>)
          [EAdd (True, True) (1::nat) 60, EAdd (True, True) 2 60, EAdd (True, True) 3 60,
           EFlush True])"
        "NewBundler_item\<lparr>CountThreshold := 100, SizeThreshold := 10000,
                 BundleSizeLimit := 100, ticket := Some (NewTicketer 1)\<rparr>"
        "[ITryAdd (True, True) (Item 1 60), ITryAdd (True, True) (Item 2 60),
           ITryAdd (True, True) (Item 3 60), IFlush True]"
        "the (runI (NewBundler_item\<lparr>CountThreshold := 100, SizeThreshold := 10000,
                             BundleSizeLimit := 100, ticket := Some (NewTicketer 1)\<rparr>)
          [ITryAdd (True, True) (Item 1 60), ITryAdd (True, True) (Item 2 60),
           ITryAdd (True, True) (Item 3 60), IFlush True])"
        "[((True, True), (1::nat), 60), ((True, True), 2, 200), ((True, True), 3, 60)]"
        "[((True, True), Item 1 60), ((True, True), Item 2 200), ((True, True), Item 3 60)]"
        "the (adds_item (NewBundler_item\<lparr>CountThreshold := 100, SizeThreshold := 10000,
                             BundleSizeLimit := 100, ticket := Some (NewTicketer 1)\<rparr>)
          [((True, True), Item 1 60), ((True, True), Item 2 200), ((True, True), Item 3 60)])"]
  by (simp add: item_defs pair_defs fresh_pair_def fresh_item_def)


section \<open>The storage of a sealed bundle\<close>

lemma sealed_view_set_pc [simp]: "sealed_view (set_pc k p b) = sealed_view b"
  by (cases "k < length (spawned b)")
     (simp_all add: sealed_view_def map_update list_update_same_conv list_update_beyond)

lemma map_tbundle_update:
  "map tbundle (sp[k := (sp ! k)\<lparr>tpc := p\<rparr>]) = map tbundle sp"
  by (cases "k < length sp") (simp_all add: map_update list_update_same_conv list_update_beyond)

lemma unshared_set_pc [simp]: "unshared (set_pc k p b) = unshared b"
  unfolding unshared_def
  by (simp only: set_pc_fields set_pc_more map_tbundle_update)

lemma unshared_frame:
  "store b' = store b \<Longrightarrow> bundle b' = bundle b \<Longrightarrow> bundleZero b' = bundleZero b \<Longrightarrow>
   spawned b' = spawned b \<Longrightarrow> unshared b' = unshared b"
  by (simp add: unshared_def)

lemma sealed_view_frame:
  "store b' = store b \<Longrightarrow> spawned b' = spawned b \<Longrightarrow> sealed_view b' = sealed_view b"
  by (simp add: sealed_view_def)

lemma unshared_flushLocked_pair:
  "unshared b \<Longrightarrow> unshared (flushLocked_pair stop b)"
  by (auto simp: unshared_def flushLocked_pair_def Let_def)

lemma sealed_view_flushLocked_pair:
  "prefix (sealed_view b) (sealed_view (flushLocked_pair stop b))"
  by (simp add: sealed_view_def flushLocked_pair_def Let_def)

lemma growcap_pos: "0 < growcap c"
  by (simp add: growcap_def)

lemma unshared_append:
  assumes u: "unshared c"
  shows "unshared (c\<lparr>store := fst (append1 (store c) (bundle c) x),
                 bundle := snd (append1 (store c) (bundle c) x), bsize := z\<rparr>)"
  using u by (auto simp: unshared_def append1_def growcap_pos)

lemma contents_append:
  assumes u: "unshared c" and t: "s \<in> set (map tbundle (spawned c))"
  shows "contents (fst (append1 (store c) (bundle c) x)) s = contents (store c) s"
proof (cases "len (bundle c) < cap (bundle c)")
  case True
  then have "ptr s \<noteq> ptr (bundle c)" using u t by (auto simp: unshared_def)
  then show ?thesis using True by (simp add: contents_def append1_def)
next
  case False
  have "ptr s < length (store c)" using u t by (auto simp: unshared_def)
  then show ?thesis using False by (simp add: contents_def append1_def nth_append)
qed

lemma sealed_view_append:
  assumes u: "unshared c"
  shows "sealed_view (c\<lparr>store := fst (append1 (store c) (bundle c) x),
                 bundle := snd (append1 (store c) (bundle c) x), bsize := z\<rparr>)
         = sealed_view c"
  using contents_append [OF u] by (simp add: sealed_view_def)

lemma unshared_armTimer [simp]: "unshared (armTimer b) = unshared b"
  by (rule unshared_frame) (simp_all add: armTimer_def initTimer_def Let_def)

lemma sealed_view_armTimer [simp]: "sealed_view (armTimer b) = sealed_view b"
  by (rule sealed_view_frame) (simp_all add: armTimer_def initTimer_def Let_def)

lemma unshared_add_pair:
  assumes "unshared b"
  shows "unshared (add_pair stops b x sz)
         \<and> prefix (sealed_view b) (sealed_view (add_pair stops b x sz))"
proof (rule add_pair_preserves
         [where P = "\<lambda>c. unshared c \<and> prefix (sealed_view b) (sealed_view c)"])
  show "unshared b \<and> prefix (sealed_view b) (sealed_view b)" using assms by simp
next
  fix s c assume "unshared c \<and> prefix (sealed_view b) (sealed_view c)"
  then show "unshared (flushLocked_pair s c)
      \<and> prefix (sealed_view b) (sealed_view (flushLocked_pair s c))"
    using sealed_view_flushLocked_pair [of c s] unshared_flushLocked_pair [of c s]
    by (auto intro: prefix_order.trans)
next
  fix c :: "'a bundlerP" assume "unshared c \<and> prefix (sealed_view b) (sealed_view c)"
  then show "unshared (armTimer c) \<and> prefix (sealed_view b) (sealed_view (armTimer c))"
    by simp
next
  fix c assume "unshared c \<and> prefix (sealed_view b) (sealed_view c)"
  then show "unshared (c\<lparr>store := fst (append1 (store c) (bundle c) x),
                 bundle := snd (append1 (store c) (bundle c) x), bsize := bsize c + sz\<rparr>)
      \<and> prefix (sealed_view b)
          (sealed_view (c\<lparr>store := fst (append1 (store c) (bundle c) x),
                 bundle := snd (append1 (store c) (bundle c) x), bsize := bsize c + sz\<rparr>))"
    by (simp add: unshared_append sealed_view_append)
qed

lemma unshared_initSemaphore [simp]: "unshared (initSemaphore b) = unshared b"
  by (rule unshared_frame) (cases "sem b"; simp add: initSemaphore_def)+

lemma sealed_view_initSemaphore [simp]: "sealed_view (initSemaphore b) = sealed_view b"
  by (rule sealed_view_frame) (cases "sem b"; simp add: initSemaphore_def)+

lemma unshared_sem_update [simp]: "unshared (b\<lparr>sem := w\<rparr>) = unshared b"
  by (simp add: unshared_def)

lemma sealed_view_sem_update [simp]: "sealed_view (b\<lparr>sem := w\<rparr>) = sealed_view b"
  by (simp add: sealed_view_def)

lemma unshared_ticket_updates [simp]:
  "unshared (b\<lparr>mutex4t := m\<rparr>) = unshared b" "unshared (b\<lparr>cond4t := c\<rparr>) = unshared b"
  "unshared (b\<lparr>active4t := a\<rparr>) = unshared b" "unshared (b\<lparr>nextHandled4t := n\<rparr>) = unshared b"
  by (simp_all add: unshared_def)

lemma sealed_view_ticket_updates [simp]:
  "sealed_view (b\<lparr>mutex4t := m\<rparr>) = sealed_view b"
  "sealed_view (b\<lparr>cond4t := c\<rparr>) = sealed_view b"
  "sealed_view (b\<lparr>active4t := a\<rparr>) = sealed_view b"
  "sealed_view (b\<lparr>nextHandled4t := n\<rparr>) = sealed_view b"
  by (simp_all add: sealed_view_def)

lemma unshared_step:
  assumes u: "unshared b" and st: "step b e = Some b'"
  shows "unshared b' \<and> prefix (sealed_view b) (sealed_view b')"
proof (cases e)
  case (EAdd stops x sz)
  have "unshared (initSemaphore b\<lparr>sem := Some w\<rparr>)"
    and "sealed_view (initSemaphore b\<lparr>sem := Some w\<rparr>) = sealed_view b" for w
    using u by simp_all
  from unshared_add_pair [OF this(1)] this(2)
  have "unshared (add_pair stops (initSemaphore b\<lparr>sem := Some w\<rparr>) x sz)
     \<and> prefix (sealed_view b) (sealed_view (add_pair stops (initSemaphore b\<lparr>sem := Some w\<rparr>) x sz))"
    for w by simp
  then show ?thesis using st u EAdd
    by (auto simp: Add_pair_Returns split: outcome.splits option.splits if_splits)
next
  case (EFlush stop)
  then show ?thesis using st u
    by (auto simp: Flush_seal_def Let_def unshared_flushLocked_pair sealed_view_flushLocked_pair)
next
  case (EAcquire k)
  then show ?thesis using st u
    by (auto simp: dispatch_acquire_Some)
next
  case (EHandler k)
  then show ?thesis using st u
    by (auto simp: handler_returns_def split: if_splits)
next
  case (ERelease k)
  then show ?thesis using st u
    by (auto simp: dispatch_release_Some)
qed

lemma unshared_run:
  "unshared b \<Longrightarrow> run b evs = Some b' \<Longrightarrow>
   unshared b' \<and> prefix (sealed_view b) (sealed_view b')"
proof (induction evs arbitrary: b)
  case Nil
  then show ?case by simp
next
  case (Cons e evs)
  from Cons.prems(2) obtain c where c: "step b e = Some c" "run c evs = Some b'"
    by (auto split: option.splits)
  from unshared_step [OF Cons.prems(1) c(1)] Cons.IH [OF _ c(2)]
  show ?case by (auto intro: prefix_order.trans)
qed

lemma fresh_pair_unshared: "fresh_pair b \<Longrightarrow> unshared b"
proof -
  assume "fresh_pair b"
  then have e: "b = NewBundler_pair\<lparr>TimeThreshold := TimeThreshold b,
            CountThreshold := CountThreshold b,
            SizeThreshold := SizeThreshold b, BundleSizeLimit := BundleSizeLimit b,
            BufferSizeLimit := BufferSizeLimit b, HandlerLimit := HandlerLimit b\<rparr>"
    by (simp add: fresh_pair_def)
  show ?thesis by (subst e) (simp add: NewBundler_pair_def unshared_def make_slice_def)
qed

text \<open>
  The pair variant: what a dispatch goroutine reads through its sealed slice never
  changes, whatever is added or sealed later.
\<close>

lemma sealed_bundles_stable_pair:
  assumes "fresh_pair b0" "run b0 evs = Some b" "run b evs' = Some b'"
  shows "prefix (sealed_view b) (sealed_view b')"
  using unshared_run [OF fresh_pair_unshared [OF assms(1)] assms(2)]
    unshared_run [OF _ assms(3)] by blast









lemma unsealed_seal_panics:
  assumes "unsealed b" "len (items b) \<noteq> 0" "timerRunning b \<longrightarrow> stop"
  shows "flushLocked_item stop b = Panics NilDereference"
  using assms
  by (auto simp: flushLocked_item_def and_then_def unsealed_def Let_def initTimer_def)



lemma replicate5: "replicate 5 x = [x, x, x, x, x]"
  by (simp add: numeral_eq_Suc)

text \<open>
  The Item variant resets the accumulator to \<open>itemsZero\<close>, a header on the same array
  of capacity 5 that the first five items of every bundle are written to. Were its
  \<open>ticket\<close> set (no code of the repository sets it), then with
  \<open>BundleSizeLimit = 100\<close> the second admission of a size-60 item would seal the first
  item and then append the second in place, and the sealed slice, whose handler has not
  started, would read the second item.
\<close>

lemma flushLocked_item_aliases_when_ticketed:
  "map_option (\<lambda>b. (items b, contents (store b) (items b), itemsZero b))
     (runI (NewBundler_item\<lparr>BundleSizeLimit := 100, ticket := Some (NewTicketer 1)\<rparr>)
        [ITryAdd (True, True) (Item 1 60)])
   = Some (\<lparr>ptr = 0, len = 1, cap = 5\<rparr>, [Some (Item 1 60)], \<lparr>ptr = 0, len = 0, cap = 5\<rparr>)
   \<and> map_option (\<lambda>b. (sealed_view b, map tpc (spawned b), contents (store b) (items b)))
     (runI (NewBundler_item\<lparr>BundleSizeLimit := 100, ticket := Some (NewTicketer 1)\<rparr>)
        [ITryAdd (True, True) (Item 1 60), ITryAdd (True, True) (Item 2 60)])
   = Some ([(\<lparr>ptr = 0, len = 1, cap = 5\<rparr>, [Some (Item 2 60)])], [AtAcquire],
           [Some (Item 2 60)])"
  by (simp add: item_defs contents_def sealed_view_def replicate5)


section \<open>Tickets\<close>

lemma tk_unat: "m < 2 ^ 64 \<Longrightarrow> unat (of_nat m :: uint64) = m"
  by (simp add: unat_of_nat)

lemma tk_inj: "m < 2 ^ 64 \<Longrightarrow> n < 2 ^ 64 \<Longrightarrow> (of_nat m = (of_nat n :: uint64)) = (m = n)"
  by (metis tk_unat)

lemma tk_less: "m < 2 ^ 64 \<Longrightarrow> n < 2 ^ 64 \<Longrightarrow> ((of_nat m :: uint64) < of_nat n) = (m < n)"
  by (simp add: word_less_nat_alt tk_unat)

lemma tk_le: "m < 2 ^ 64 \<Longrightarrow> n < 2 ^ 64 \<Longrightarrow> ((of_nat m :: uint64) \<le> of_nat n) = (m \<le> n)"
  by (simp add: word_le_nat_alt tk_unat)

lemma ticketing_finite: "ticketing m sp act nx nh \<Longrightarrow> finite act"
  by (simp add: ticketing_def)

lemma running_update:
  assumes "k < length sp"
  shows "{j. j < length (sp[k := (sp ! k)\<lparr>tpc := p\<rparr>])
            \<and> (tpc (sp[k := (sp ! k)\<lparr>tpc := p\<rparr>] ! j) = InHandler
               \<or> tpc (sp[k := (sp ! k)\<lparr>tpc := p\<rparr>] ! j) = HandlerReturned)}
       = (if p = InHandler \<or> p = HandlerReturned
          then insert k {j. j < length sp \<and> (tpc (sp ! j) = InHandler \<or> tpc (sp ! j) = HandlerReturned)}
          else {j. j < length sp \<and> (tpc (sp ! j) = InHandler \<or> tpc (sp ! j) = HandlerReturned)} - {k})"
  using assms by (auto simp: nth_list_update)

lemma running_append:
  "{j. j < length (sp @ [t]) \<and> (tpc ((sp @ [t]) ! j) = InHandler
        \<or> tpc ((sp @ [t]) ! j) = HandlerReturned)}
   = (if tpc t = InHandler \<or> tpc t = HandlerReturned then {length sp} else {})
     \<union> {j. j < length sp \<and> (tpc (sp ! j) = InHandler \<or> tpc (sp ! j) = HandlerReturned)}"
  by (auto simp: nth_append less_Suc_eq)

lemma ticketing_seal:
  assumes "ticketing m sp act nx nh"
  shows "ticketing m (sp @ [\<lparr>tticket = nx, tbundle = s, tsize = z, tpc = AtAcquire\<rparr>])
           act (nx + 1) nh"
  using assms unfolding ticketing_def running_append
  by (auto simp: nth_append less_Suc_eq)

lemma ticketing_acquire:
  assumes t: "ticketing m sp act nx nh" and n: "length sp < 2 ^ 64"
    and k: "k < length sp" "tpc (sp ! k) = AtAcquire" "tticket (sp ! k) = nh"
  shows "k = m \<and> ticketing (Suc m) (sp[k := (sp ! k)\<lparr>tpc := InHandler\<rparr>])
           (insert (tticket (sp ! k)) act) nx (nh + 1)"
proof -
  have m: "m \<le> length sp" "nh = of_nat m" using t by (simp_all add: ticketing_def)
  have tk: "tticket (sp ! k) = of_nat k" using t k by (simp add: ticketing_def)
  then have "of_nat k = (of_nat m :: uint64)" using k m by simp
  then have km: "k = m" using tk_inj [of k m] k m n by simp
  let ?sp = "sp[k := (sp ! k)\<lparr>tpc := InHandler\<rparr>]"
  have pcs: "\<forall>j < length sp. tticket (?sp ! j) = of_nat j
       \<and> ((tpc (?sp ! j) = AtAcquire) = (Suc m \<le> j))"
    using t km k by (auto simp: ticketing_def nth_list_update)
  show ?thesis
    using km m k pcs t tk unfolding ticketing_def running_update [OF k(1)]
    by simp
qed

lemma ticketing_handler:
  assumes t: "ticketing m sp act nx nh"
    and k: "k < length sp" "tpc (sp ! k) = InHandler"
  shows "ticketing m (sp[k := (sp ! k)\<lparr>tpc := HandlerReturned\<rparr>]) act nx nh"
proof -
  let ?sp = "sp[k := (sp ! k)\<lparr>tpc := HandlerReturned\<rparr>]"
  have pcs: "\<forall>j < length sp. tticket (?sp ! j) = of_nat j
       \<and> ((tpc (?sp ! j) = AtAcquire) = (m \<le> j))"
    using t k by (auto simp: ticketing_def nth_list_update)
  have "insert k {j. j < length sp \<and> (tpc (sp ! j) = InHandler \<or> tpc (sp ! j) = HandlerReturned)}
      = {j. j < length sp \<and> (tpc (sp ! j) = InHandler \<or> tpc (sp ! j) = HandlerReturned)}"
    using k by auto
  then show ?thesis
    using t pcs unfolding ticketing_def running_update [OF k(1)] by simp
qed

lemma ticketing_release:
  assumes t: "ticketing m sp act nx nh" and n: "length sp < 2 ^ 64"
    and k: "k < length sp" "tpc (sp ! k) = HandlerReturned"
  shows "ticketing m (sp[k := (sp ! k)\<lparr>tpc := Finished\<rparr>]) (act - {tticket (sp ! k)}) nx nh"
proof -
  let ?sp = "sp[k := (sp ! k)\<lparr>tpc := Finished\<rparr>]"
  let ?R = "{j. j < length sp \<and> (tpc (sp ! j) = InHandler \<or> tpc (sp ! j) = HandlerReturned)}"
  have tk: "tticket (sp ! k) = of_nat k" using t k by (simp add: ticketing_def)
  have "inj_on (of_nat :: nat \<Rightarrow> uint64) {j. j < length sp}"
    using n by (auto simp: inj_on_def tk_inj)
  moreover have "?R \<union> {k} \<subseteq> {j. j < length sp}" using k by auto
  ultimately have inj: "inj_on (of_nat :: nat \<Rightarrow> uint64) (?R \<union> {k})"
    by (rule inj_on_subset)
  have img: "of_nat ` (?R - {k}) = (of_nat ` ?R) - {of_nat k :: uint64}"
    by (subst inj_on_image_set_diff [OF inj]) auto
  have pcs: "\<forall>j < length sp. tticket (?sp ! j) = of_nat j
       \<and> ((tpc (?sp ! j) = AtAcquire) = (m \<le> j))"
    using t k by (auto simp: ticketing_def nth_list_update)
  show ?thesis
    using t pcs tk img unfolding ticketing_def running_update [OF k(1)] by simp
qed

lemma ticketing_bounds:
  assumes t: "ticketing m sp act nx nh" and n: "length sp < 2 ^ 64"
  shows "nh \<le> nx" and "\<forall>x \<in> act. x < nh" and "unat nh = m" and "unat nx = length sp"
proof -
  have m: "m \<le> length sp" "nh = of_nat m" "nx = of_nat (length sp)"
    using t by (simp_all add: ticketing_def)
  show "nh \<le> nx" using m n by (simp add: tk_le)
  show "unat nh = m" using m n by (simp add: tk_unat)
  show "unat nx = length sp" using m n by (simp add: tk_unat)
  show "\<forall>x \<in> act. x < nh"
  proof
    fix x assume "x \<in> act"
    then obtain k where k: "k < length sp" "x = of_nat k"
      "tpc (sp ! k) = InHandler \<or> tpc (sp ! k) = HandlerReturned"
      using t by (auto simp: ticketing_def)
    then have "tpc (sp ! k) \<noteq> AtAcquire" by auto
    then have "k < m" using t k by (auto simp: ticketing_def)
    then show "x < nh" using k m n by (simp add: tk_less)
  qed
qed

lemma min_active_ge: "finite s \<Longrightarrow> (n \<le> min_active s) = (\<forall>x \<in> s. n \<le> x)"
  by (simp add: min_active_def)

lemma ticketing_drained:
  assumes t: "ticketing m sp act nx nh" and n: "length sp < 2 ^ 64"
    and w: "w \<le> nh" "w \<le> min_active act"
    and k: "k < length sp" "tticket (sp ! k) < w"
  shows "tpc (sp ! k) = Finished"
proof -
  have m: "m \<le> length sp" "nh = of_nat m" and tk: "tticket (sp ! k) = of_nat k"
    using t k by (simp_all add: ticketing_def)
  have "of_nat k < (of_nat m :: uint64)" using k w tk m by simp
  then have "k < m" using tk_less [of k m] k m n by simp
  then have 1: "tpc (sp ! k) \<noteq> AtAcquire" using t k by (auto simp: ticketing_def)
  have "\<forall>x \<in> act. w \<le> x"
    using w min_active_ge [OF ticketing_finite [OF t]] by simp
  moreover have "of_nat k \<in> act" if "tpc (sp ! k) = InHandler \<or> tpc (sp ! k) = HandlerReturned"
    using t k that by (auto simp: ticketing_def)
  ultimately have 2: "\<not> (tpc (sp ! k) = InHandler \<or> tpc (sp ! k) = HandlerReturned)"
    using k tk by (metis not_le)
  from 1 2 show ?thesis by (cases "tpc (sp ! k)") auto
qed


subsection \<open>The pair variant along an execution\<close>

lemma ticketed_flushLocked_pair:
  "ticketed m b \<Longrightarrow> ticketed m (flushLocked_pair stop b)"
  by (auto simp: ticketed_def flushLocked_pair_def Let_def intro: ticketing_seal)

lemma ticketed_frame:
  "spawned b' = spawned b \<Longrightarrow> active4t b' = active4t b \<Longrightarrow> next4t b' = next4t b \<Longrightarrow>
   nextHandled4t b' = nextHandled4t b \<Longrightarrow> mutex4t b' = mutex4t b \<Longrightarrow>
   HandlerLimit b' = HandlerLimit b \<Longrightarrow> ticketed m b' = ticketed m b"
  by (simp add: ticketed_def)

lemma ticketed_armTimer [simp]: "ticketed m (armTimer b) = ticketed m b"
  by (rule ticketed_frame) (simp_all add: armTimer_def initTimer_def Let_def)

lemma ticketed_initSemaphore [simp]: "ticketed m (initSemaphore b) = ticketed m b"
  by (rule ticketed_frame) (cases "sem b"; simp add: initSemaphore_def)+

lemma ticketed_sem_update [simp]: "ticketed m (b\<lparr>sem := w\<rparr>) = ticketed m b"
  by (simp add: ticketed_def)

lemma ticketed_add_pair: "ticketed m b \<Longrightarrow> ticketed m (add_pair stops b x sz)"
  by (erule add_pair_preserves [where P = "ticketed m"])
     (simp_all add: ticketed_flushLocked_pair, simp add: ticketed_def)

lemma spawned_flushLocked_pair:
  "length (spawned b) \<le> length (spawned (flushLocked_pair stop b))"
  by (simp add: flushLocked_pair_def Let_def)

lemma spawned_add_pair:
  fixes b :: "'a bundlerP"
  shows "length (spawned b) \<le> length (spawned (add_pair stops b x sz))"
proof (rule add_pair_preserves
         [where P = "\<lambda>c :: 'a bundlerP. length (spawned b) \<le> length (spawned c)"])
  fix s and c :: "'a bundlerP" assume "length (spawned b) \<le> length (spawned c)"
  then show "length (spawned b) \<le> length (spawned (flushLocked_pair s c))"
    using spawned_flushLocked_pair [of c s] by simp
qed (simp_all add: armTimer_def initTimer_def Let_def)

lemma spawned_initSemaphore [simp]: "spawned (initSemaphore b) = spawned b"
  by (cases "sem b") (simp_all add: initSemaphore_def)

lemma spawned_step: "step b e = Some b' \<Longrightarrow> length (spawned b) \<le> length (spawned b')"
proof (cases e)
  case (EAdd stops x sz)
  assume "step b e = Some b'"
  then show ?thesis using EAdd spawned_add_pair [of "initSemaphore b\<lparr>sem := Some w\<rparr>" stops x sz for w]
    by (auto simp: Add_pair_Returns split: outcome.splits option.splits if_splits)
next
  case (EFlush stop)
  assume "step b e = Some b'"
  then show ?thesis using EFlush spawned_flushLocked_pair [of b stop]
    by (auto simp: Flush_seal_def Let_def)
next
  case (EAcquire k)
  assume "step b e = Some b'"
  then show ?thesis using EAcquire by (auto simp: dispatch_acquire_Some)
next
  case (EHandler k)
  assume "step b e = Some b'"
  then show ?thesis using EHandler by (auto simp: handler_returns_def split: if_splits)
next
  case (ERelease k)
  assume "step b e = Some b'"
  then show ?thesis using ERelease by (auto simp: dispatch_release_Some)
qed

lemma spawned_run: "run b evs = Some b' \<Longrightarrow> length (spawned b) \<le> length (spawned b')"
proof (induction evs arbitrary: b)
  case Nil
  then show ?case by simp
next
  case (Cons e evs)
  from Cons.prems obtain c where c: "step b e = Some c" "run c evs = Some b'"
    by (auto split: option.splits)
  from spawned_step [OF c(1)] Cons.IH [OF c(2)] show ?case by simp
qed

lemma set_pc_config_fields [simp]:
  "HandlerLimit (set_pc k p b) = HandlerLimit b"
  "BundleSizeLimit (set_pc k p b) = BundleSizeLimit b"
  "CountThreshold (set_pc k p b) = CountThreshold b"
  "SizeThreshold (set_pc k p b) = SizeThreshold b"
  by (simp_all add: set_pc_def)

lemma ticketed_step:
  assumes t: "ticketed m b" and st: "step b e = Some b'" and n: "length (spawned b') < 2 ^ 64"
  shows "ticketed (m + length (acquired [e])) b'
         \<and> acquired [e] = [m..<m + length (acquired [e])]"
proof (cases e)
  case (EAdd stops x sz)
  have "ticketed m (add_pair stops (initSemaphore b\<lparr>sem := Some w\<rparr>) x sz)" for w
    using t by (simp add: ticketed_add_pair)
  then show ?thesis using st t EAdd
    by (auto simp: Add_pair_Returns split: outcome.splits option.splits if_splits)
next
  case (EFlush stop)
  then show ?thesis using st t
    by (auto simp: Flush_seal_def Let_def ticketed_flushLocked_pair)
next
  case (EAcquire k)
  from st EAcquire have d: "at_pc b k AtAcquire" "tticket (spawned b ! k) = nextHandled4t b"
    "int (card (active4t b)) < sint (HandlerLimit b)"
    and b': "b' = set_pc k InHandler
                (b\<lparr>mutex4t := False, cond4t := cond4t b + 1,
                   active4t := insert (tticket (spawned b ! k)) (active4t b),
                   nextHandled4t := nextHandled4t b + 1\<rparr>)"
    by (simp_all add: dispatch_acquire_Some)
  have len: "length (spawned b) < 2 ^ 64" using n b' by simp
  from t have tk: "ticketing m (spawned b) (active4t b) (next4t b) (nextHandled4t b)"
    by (simp add: ticketed_def)
  from ticketing_acquire [OF tk len] d
  have km: "k = m" and tk': "ticketing (Suc m) ((spawned b)[k := (spawned b ! k)\<lparr>tpc := InHandler\<rparr>])
           (insert (tticket (spawned b ! k)) (active4t b)) (next4t b) (nextHandled4t b + 1)"
    by (simp_all add: at_pc_def)
  have "card (insert (tticket (spawned b ! k)) (active4t b)) \<le> Suc (card (active4t b))"
    using ticketing_finite [OF tk] by (simp add: card_insert_if)
  then have c: "int (card (insert (tticket (spawned b ! k)) (active4t b))) \<le> sint (HandlerLimit b)"
    using d(3) by linarith
  show ?thesis
    using tk' km c EAcquire by (simp add: b' ticketed_def)
next
  case (EHandler k)
  from st EHandler have d: "at_pc b k InHandler" and b': "b' = set_pc k HandlerReturned b"
    by (auto simp: handler_returns_def split: if_splits)
  from t have tk: "ticketing m (spawned b) (active4t b) (next4t b) (nextHandled4t b)"
    by (simp add: ticketed_def)
  from ticketing_handler [OF tk] d
  show ?thesis using t EHandler by (simp add: b' ticketed_def at_pc_def)
next
  case (ERelease k)
  from st ERelease obtain w' where d: "at_pc b k HandlerReturned"
    and b': "b' = set_pc k Finished
                (b\<lparr>sem := Some w', mutex4t := False, cond4t := cond4t b + 1,
                   active4t := active4t b - {tticket (spawned b ! k)}\<rparr>)"
    by (auto simp: dispatch_release_Some)
  have len: "length (spawned b) < 2 ^ 64" using n b' by simp
  from t have tk: "ticketing m (spawned b) (active4t b) (next4t b) (nextHandled4t b)"
    by (simp add: ticketed_def)
  have "card (active4t b - {tticket (spawned b ! k)}) \<le> card (active4t b)"
    by (rule card_mono [OF ticketing_finite [OF tk]]) auto
  then have c: "0 \<le>s HandlerLimit b \<longrightarrow>
      int (card (active4t b - {tticket (spawned b ! k)})) \<le> sint (HandlerLimit b)"
    using t by (auto simp: ticketed_def)
  from ticketing_release [OF tk len] d
  show ?thesis using c ERelease by (simp add: b' ticketed_def at_pc_def)
qed

lemma acquired_append: "acquired (e # es) = acquired [e] @ acquired es"
  by (cases e) simp_all

lemma ticketed_run:
  "ticketed m b \<Longrightarrow> run b evs = Some b' \<Longrightarrow> length (spawned b') < 2 ^ 64 \<Longrightarrow>
   ticketed (m + length (acquired evs)) b'
   \<and> acquired evs = [m..<m + length (acquired evs)]"
proof (induction evs arbitrary: b m)
  case Nil
  then show ?case by simp
next
  case (Cons e evs)
  from Cons.prems(2) obtain c where c: "step b e = Some c" "run c evs = Some b'"
    by (auto split: option.splits)
  have "length (spawned c) < 2 ^ 64"
    using spawned_run [OF c(2)] Cons.prems(3) by simp
  from ticketed_step [OF Cons.prems(1) c(1) this]
  have 1: "ticketed (m + length (acquired [e])) c"
    and 2: "acquired [e] = [m..<m + length (acquired [e])]" by simp_all
  from Cons.IH [OF 1 c(2) Cons.prems(3)]
  have 3: "ticketed (m + length (acquired [e]) + length (acquired evs)) b'"
    and 4: "acquired evs = [m + length (acquired [e])..<m + length (acquired [e])
                + length (acquired evs)]" by simp_all
  have "acquired (e # evs) = acquired [e] @ acquired evs" by (rule acquired_append)
  also have "\<dots> = [m..<m + length (acquired [e])] @ [m + length (acquired [e])..<m + length (acquired [e])
                + length (acquired evs)]" using 2 4 by simp
  also have "\<dots> = [m..<m + length (acquired [e]) + length (acquired evs)]"
    by (simp add: upt_add_eq_append [symmetric])
  finally have 5: "acquired (e # evs) = [m..<m + length (acquired [e]) + length (acquired evs)]" .
  have 6: "length (acquired (e # evs)) = length (acquired [e]) + length (acquired evs)"
    by (subst acquired_append) simp
  show ?case using 3 5 6 by (simp add: add.assoc)
qed

lemma fresh_pair_ticketed:
  assumes "fresh_pair b"
  shows "ticketed 0 b"
proof -
  from assms(1) have e: "b = NewBundler_pair\<lparr>TimeThreshold := TimeThreshold b,
            CountThreshold := CountThreshold b,
            SizeThreshold := SizeThreshold b, BundleSizeLimit := BundleSizeLimit b,
            BufferSizeLimit := BufferSizeLimit b, HandlerLimit := HandlerLimit b\<rparr>"
    by (simp add: fresh_pair_def)
  have "spawned b = []" "active4t b = {}" "next4t b = 0" "nextHandled4t b = 0" "\<not> mutex4t b"
    by (subst e, simp add: NewBundler_pair_def)+
  then show ?thesis by (simp add: ticketed_def ticketing_def word_sle_eq)
qed

subsection \<open>The ticketer of ticket.go along an execution\<close>

lemma Acquire_Returns:
  "(Acquire t x = Returns t') =
     (\<not> mutex t \<and> x = nextHandled t \<and> int (card (active t)) < sint (limit t)
      \<and> t' = t\<lparr>mutex := False, cond := cond t + 1, active := insert x (active t),
               nextHandled := nextHandled t + 1\<rparr>)"
  by (cases "mutex t") (auto simp: Acquire_def Acquire_loop_def)

lemma Release_Blocks:
  "Release t x = Blocks t' \<Longrightarrow>
     active t' \<subseteq> active t \<and> nxt t' = nxt t \<and> nextHandled t' = nextHandled t
     \<and> limit t' = limit t"
  by (cases "mutex t") (auto simp: Release_def Let_def split: if_splits)

lemma tinv_finite: "tinv n m t \<Longrightarrow> finite (active t)"
  by (auto simp: tinv_def intro: finite_subset)

lemma tinv_step:
  assumes i: "tinv n m t" and st: "tstep t e = Some t'" and nw: "n + issued [e] < 2 ^ 64"
  shows "tinv (n + issued [e]) (m + length (tacquired [e])) t'
         \<and> tacquired [e] = map of_nat [m..<m + length (tacquired [e])]
         \<and> limit t' = limit t"
proof (cases e)
  case TNext
  then show ?thesis using i st by (auto simp: tinv_def Next_def)
next
  case (TAcquire x)
  from st TAcquire have g: "x < nxt t" and a: "Acquire t x = Returns t'"
    by (auto split: if_splits outcome.splits)
  from a have x: "x = nextHandled t" and c: "int (card (active t)) < sint (limit t)"
    and t': "t' = t\<lparr>mutex := False, cond := cond t + 1, active := insert x (active t),
               nextHandled := nextHandled t + 1\<rparr>"
    by (simp_all add: Acquire_Returns)
  have mn: "m \<le> n" and nx: "nxt t = of_nat n" and nh: "nextHandled t = of_nat m"
    using i by (simp_all add: tinv_def)
  have "(of_nat m :: uint64) < of_nat n" using g x nx nh by simp
  then have lt: "m < n" using tk_less [of m n] mn nw by simp
  have sub: "insert x (active t) \<subseteq> of_nat ` {k. k < Suc m}"
    using i x nh by (auto simp: tinv_def less_Suc_eq)
  have "card (insert x (active t)) \<le> Suc (card (active t))"
    using tinv_finite [OF i] by (simp add: card_insert_if)
  then have "int (card (insert x (active t))) \<le> sint (limit t)" using c by linarith
  then show ?thesis
    using TAcquire lt sub nx nh x by (simp add: t' tinv_def)
next
  case (TRelease x)
  from st TRelease have "Release t x = Blocks t'"
    using Release_never_returns [of t x] by (auto split: outcome.splits)
  from Release_Blocks [OF this]
  have f: "active t' \<subseteq> active t" "nxt t' = nxt t" "nextHandled t' = nextHandled t"
    "limit t' = limit t" by simp_all
  have "card (active t') \<le> card (active t)"
    by (rule card_mono [OF tinv_finite [OF i] f(1)])
  then show ?thesis using i f TRelease by (auto simp: tinv_def)
qed

lemma tacquired_append: "tacquired (e # es) = tacquired [e] @ tacquired es"
  by (cases e) simp_all

lemma issued_append: "issued (e # es) = issued [e] + issued es"
  by (cases e) simp_all

lemma tinv_run:
  "tinv n m t \<Longrightarrow> trun t evs = Some t' \<Longrightarrow> n + issued evs < 2 ^ 64 \<Longrightarrow>
   tinv (n + issued evs) (m + length (tacquired evs)) t'
   \<and> tacquired evs = map of_nat [m..<m + length (tacquired evs)]
   \<and> limit t' = limit t"
proof (induction evs arbitrary: t n m)
  case Nil
  then show ?case by simp
next
  case (Cons e evs)
  from Cons.prems(2) obtain c where c: "tstep t e = Some c" "trun c evs = Some t'"
    by (auto split: option.splits)
  have iss: "issued (e # evs) = issued [e] + issued evs" by (rule issued_append)
  have ta: "tacquired (e # evs) = tacquired [e] @ tacquired evs" by (rule tacquired_append)
  have "n + issued [e] < 2 ^ 64" using Cons.prems(3) iss by simp
  from tinv_step [OF Cons.prems(1) c(1) this]
  have 1: "tinv (n + issued [e]) (m + length (tacquired [e])) c"
    and 2: "tacquired [e] = map of_nat [m..<m + length (tacquired [e])]"
    and 3: "limit c = limit t" by simp_all
  have "n + issued [e] + issued evs < 2 ^ 64" using Cons.prems(3) iss by simp
  from Cons.IH [OF 1 c(2) this]
  have 4: "tinv (n + issued [e] + issued evs)
             (m + length (tacquired [e]) + length (tacquired evs)) t'"
    and 5: "tacquired evs = map of_nat [m + length (tacquired [e])..<
               m + length (tacquired [e]) + length (tacquired evs)]"
    and 6: "limit t' = limit c" by simp_all
  have "tacquired (e # evs)
      = map of_nat ([m..<m + length (tacquired [e])]
                    @ [m + length (tacquired [e])..<
                       m + length (tacquired [e]) + length (tacquired evs)])"
    unfolding ta map_append using 2 5 by simp
  also have "[m..<m + length (tacquired [e])]
                    @ [m + length (tacquired [e])..<
                       m + length (tacquired [e]) + length (tacquired evs)]
      = [m..<m + length (tacquired [e]) + length (tacquired evs)]"
    by (simp add: upt_add_eq_append [symmetric])
  finally have 7: "tacquired (e # evs)
      = map of_nat [m..<m + length (tacquired [e]) + length (tacquired evs)]" .
  have 8: "length (tacquired (e # evs)) = length (tacquired [e]) + length (tacquired evs)"
    unfolding ta by simp
  show ?case using 4 7 8 3 6 iss by (simp add: add.assoc)
qed

lemma tinv_bounds:
  assumes i: "tinv n m t" and nw: "n < 2 ^ 64"
  shows "nextHandled t \<le> nxt t" "\<forall>x \<in> active t. x < nextHandled t"
    "unat (nextHandled t) = m"
proof -
  have mn: "m \<le> n" and nx: "nxt t = of_nat n" and nh: "nextHandled t = of_nat m"
    using i by (simp_all add: tinv_def)
  show "nextHandled t \<le> nxt t" using mn nw nx nh by (simp add: tk_le)
  show "unat (nextHandled t) = m" using mn nw nh by (simp add: tk_unat)
  show "\<forall>x \<in> active t. x < nextHandled t"
  proof
    fix x assume "x \<in> active t"
    then obtain k where "k < m" "x = of_nat k" using i by (auto simp: tinv_def)
    then show "x < nextHandled t" using mn nw nh by (simp add: tk_less)
  qed
qed

lemma tinv_NewTicketer: "0 \<le>s lim \<Longrightarrow> tinv 0 0 (NewTicketer lim)"
  by (simp add: tinv_def NewTicketer_def word_sle_eq)

section \<open>The ticketer invariants and Flush\<close>

lemma config_step: "step b e = Some b' \<Longrightarrow> config b' = config b"
proof (cases e)
  case (EAdd stops x sz)
  assume "step b e = Some b'"
  then show ?thesis using EAdd
    by (auto simp: Add_pair_Returns split: outcome.splits option.splits if_splits)
next
  case (EFlush stop)
  assume "step b e = Some b'"
  then show ?thesis using EFlush by (auto simp: Flush_seal_def Let_def)
next
  case (EAcquire k)
  assume "step b e = Some b'"
  then show ?thesis using EAcquire by (auto simp: dispatch_acquire_Some)
next
  case (EHandler k)
  assume "step b e = Some b'"
  then show ?thesis using EHandler by (auto simp: handler_returns_def split: if_splits)
next
  case (ERelease k)
  assume "step b e = Some b'"
  then show ?thesis using ERelease by (auto simp: dispatch_release_Some)
qed

lemma config_run: "run b evs = Some b' \<Longrightarrow> config b' = config b"
proof (induction evs arbitrary: b)
  case Nil
  then show ?case by simp
next
  case (Cons e evs)
  from Cons.prems obtain c where c: "step b e = Some c" "run c evs = Some b'"
    by (auto split: option.splits)
  from config_step [OF c(1)] Cons.IH [OF c(2)] show ?case by simp
qed

lemmas exec_defs = handler_returns_def dispatch_acquire_def dispatch_release_def at_pc_def
  set_pc_def sem_release_def ReleaseW_def acquire_def acquire_loop_def release_def

text \<open>
  C3. In every state an execution of the pair variant reaches from a new bundler with a
  non-negative \<open>HandlerLimit\<close>, and in every state the ticketer of ticket.go reaches
  from \<open>NewTicketer\<close> with a non-negative limit under its protocol, as long as the
  64-bit ticket counter has not wrapped around: \<open>nextHandled \<le> next\<close>, every active
  ticket is below \<open>nextHandled\<close>, and \<open>active\<close> holds at most the limit. \<open>acquire\<close>
  returns only for the ticket equal to \<open>nextHandled\<close> while \<open>active\<close> is below the
  limit, and the acquires that returned are those of tickets 0, 1, 2, ... in this order,
  each once.
\<close>

theorem ticketer_invariants:
  "(fresh_pair b0 \<and> 0 \<le>s HandlerLimit b0 \<and> run b0 evs = Some b
      \<and> length (spawned b) < 2 ^ 64 \<longrightarrow>
      nextHandled4t b \<le> next4t b
      \<and> (\<forall>x \<in> active4t b. x < nextHandled4t b)
      \<and> int (card (active4t b)) \<le> sint (HandlerLimit b)
      \<and> acquired evs = [0..<unat (nextHandled4t b)]
      \<and> (\<forall>k < length (spawned b). tticket (spawned b ! k) = of_nat k)
      \<and> (\<forall>x b'. acquire b x = Returns b' \<longrightarrow>
            x = nextHandled4t b \<and> int (card (active4t b)) < sint (HandlerLimit b)))
   \<and> (0 \<le>s lim \<and> trun (NewTicketer lim) tevs = Some t \<and> issued tevs < 2 ^ 64 \<longrightarrow>
      nextHandled t \<le> nxt t
      \<and> (\<forall>x \<in> active t. x < nextHandled t)
      \<and> int (card (active t)) \<le> sint (limit t)
      \<and> tacquired tevs = map of_nat [0..<unat (nextHandled t)]
      \<and> (\<forall>x t'. Acquire t x = Returns t' \<longrightarrow>
            x = nextHandled t \<and> int (card (active t)) < sint (limit t)))"
proof (intro conjI impI)
  assume a: "fresh_pair b0 \<and> 0 \<le>s HandlerLimit b0 \<and> run b0 evs = Some b
      \<and> length (spawned b) < 2 ^ 64"
  then have r: "run b0 evs = Some b" and n: "length (spawned b) < 2 ^ 64" by simp_all
  from ticketed_run [OF fresh_pair_ticketed r n] a
  have t: "ticketed (length (acquired evs)) b"
    and q: "acquired evs = [0..<length (acquired evs)]" by simp_all
  from t have tk: "ticketing (length (acquired evs)) (spawned b) (active4t b) (next4t b)
      (nextHandled4t b)" by (simp add: ticketed_def)
  have "HandlerLimit b = HandlerLimit b0"
    using config_run [OF r] by (simp add: config_def)
  then have "0 \<le>s HandlerLimit b" using a by simp
  then show "int (card (active4t b)) \<le> sint (HandlerLimit b)"
    using t by (simp add: ticketed_def)
  show "nextHandled4t b \<le> next4t b" by (rule ticketing_bounds(1) [OF tk n])
  show "\<forall>x \<in> active4t b. x < nextHandled4t b" by (rule ticketing_bounds(2) [OF tk n])
  show "acquired evs = [0..<unat (nextHandled4t b)]"
    using q ticketing_bounds(3) [OF tk n] by simp
  show "\<forall>k < length (spawned b). tticket (spawned b ! k) = of_nat k"
    using tk by (simp add: ticketing_def)
  show "\<forall>x b'. acquire b x = Returns b' \<longrightarrow>
            x = nextHandled4t b \<and> int (card (active4t b)) < sint (HandlerLimit b)"
    by (simp add: acquire_Returns)
next
  assume a: "0 \<le>s lim \<and> trun (NewTicketer lim) tevs = Some t \<and> issued tevs < 2 ^ 64"
  then have r: "trun (NewTicketer lim) tevs = Some t" and n: "issued tevs < 2 ^ 64"
    and l: "0 \<le>s lim" by simp_all
  from tinv_run [OF tinv_NewTicketer [OF l] r] n
  have i: "tinv (issued tevs) (length (tacquired tevs)) t"
    and q: "tacquired tevs = map of_nat [0..<length (tacquired tevs)]" by simp_all
  show "nextHandled t \<le> nxt t" by (rule tinv_bounds(1) [OF i n])
  show "\<forall>x \<in> active t. x < nextHandled t" by (rule tinv_bounds(2) [OF i n])
  show "int (card (active t)) \<le> sint (limit t)" using i by (simp add: tinv_def)
  show "tacquired tevs = map of_nat [0..<unat (nextHandled t)]"
    using q tinv_bounds(3) [OF i n] by simp
  show "\<forall>x t'. Acquire t x = Returns t' \<longrightarrow>
            x = nextHandled t \<and> int (card (active t)) < sint (limit t)"
    by (simp add: Acquire_Returns)
qed

theorem ticketer_invariants_witness:
  "fresh_pair (NewBundler_pair\<lparr>CountThreshold := 1, HandlerLimit := 2\<rparr> :: nat bundlerP)
   \<and> 0 \<le>s HandlerLimit (NewBundler_pair\<lparr>CountThreshold := 1, HandlerLimit := 2\<rparr> :: nat bundlerP)
   \<and> map_option (\<lambda>b. (next4t b, nextHandled4t b, active4t b, map tpc (spawned b)))
       (run (NewBundler_pair\<lparr>CountThreshold := 1, HandlerLimit := 2\<rparr>)
          [EAdd (True, True) (1::nat) 1, EAdd (True, True) 2 1, EAcquire 0, EAcquire 1,
           EHandler 0, ERelease 0])
     = Some (2, 2, {1}, [Finished, InHandler])
   \<and> acquired [EAdd (True, True) (1::nat) 1, EAdd (True, True) 2 1, EAcquire 0, EAcquire 1,
           EHandler 0, ERelease 0] = [0, 1]
   \<and> 0 \<le>s (2 :: goint)
   \<and> map_option (\<lambda>t. (nxt t, nextHandled t, active t, mutex t))
       (trun (NewTicketer 2) [TNext, TNext, TAcquire 0, TAcquire 1, TRelease 0])
     = Some (2, 2, {1}, True)
   \<and> issued [TNext, TNext, TAcquire 0, TAcquire 1, TRelease 0] = 2
   \<and> tacquired [TNext, TNext, TAcquire 0, TAcquire 1, TRelease 0] = [0, 1]"
  using ticketer_invariants
    [of "NewBundler_pair\<lparr>CountThreshold := 1, HandlerLimit := 2\<rparr> :: nat bundlerP"
        "[EAdd (True, True) (1::nat) 1, EAdd (True, True) 2 1, EAcquire 0, EAcquire 1,
           EHandler 0, ERelease 0]"
        "the (run (NewBundler_pair\<lparr>CountThreshold := 1, HandlerLimit := 2\<rparr>)
          [EAdd (True, True) (1::nat) 1, EAdd (True, True) 2 1, EAcquire 0, EAcquire 1,
           EHandler 0, ERelease 0])"
        2 "[TNext, TNext, TAcquire 0, TAcquire 1, TRelease 0]"
        "the (trun (NewTicketer 2) [TNext, TNext, TAcquire 0, TAcquire 1, TRelease 0])"]
  by (simp add: pair_defs exec_defs fresh_pair_def insert_Diff_if
        Acquire_def Acquire_loop_def Release_def Next_def NewTicketer_def)

lemma run_append:
  "run b (xs @ ys) = (case run b xs of None \<Rightarrow> None | Some c \<Rightarrow> run c ys)"
  by (induction xs arbitrary: b) (auto split: option.splits)

lemma sealed_view_nth:
  "k < length (spawned b) \<Longrightarrow>
   sealed_view b ! k = (tbundle (spawned b ! k), contents (store b) (tbundle (spawned b ! k)))"
  by (simp add: sealed_view_def)

lemma Flush_pair_alone: "Flush_pair_among stop alone b = Flush_pair stop b"
  by (simp add: Flush_pair_among_def alone_def Flush_pair_def Flush_seal_def Let_def)

lemma waitAll_Blocks:
  "\<not> mutex4t b \<Longrightarrow> waitAll b n = Blocks b' \<Longrightarrow> b' = b"
  by (auto simp: waitAll_def waitAll_loop_def split: if_splits)

lemma waitAll_spawned:
  "waitAll b n = Blocks b' \<Longrightarrow> spawned b' = spawned b"
  by (cases "mutex4t b") (auto simp: waitAll_def waitAll_loop_def split: if_splits)

lemma waitAll_among_spawned:
  "waitAll_among b n wakes = Returns b4 \<Longrightarrow> length (spawned b) \<le> length (spawned b4)"
proof (induction wakes arbitrary: b)
  case Nil
  then show ?case by (simp add: waitAll_Returns)
next
  case (Cons evs wakes)
  show ?case
  proof (cases "waitAll b n")
    case (Returns c)
    with Cons.prems have "waitAll b n = Returns b4" by simp
    then show ?thesis by (simp add: waitAll_Returns)
  next
    case (Panics p)
    then show ?thesis using Cons.prems by simp
  next
    case (Blocks c)
    with Cons.prems obtain d where d: "run c evs = Some d"
      "waitAll_among d n wakes = Returns b4"
      by (auto split: option.splits)
    from waitAll_spawned [OF Blocks] spawned_run [OF d(1)] Cons.IH [OF d(2)]
    show ?thesis by simp
  qed
qed

lemma waitAll_among_Returns:
  assumes "waitAll_among b n wakes = Returns b4" and "ticketed m b"
    and "length (spawned b4) < 2 ^ 64"
  shows "\<exists>evs' c. run b evs' = Some c \<and> waitAll c n = Returns b4"
  using assms
proof (induction wakes arbitrary: b m)
  case Nil
  then have "run b [] = Some b \<and> waitAll b n = Returns b4" by simp
  then show ?case by blast
next
  case (Cons evs wakes)
  show ?case
  proof (cases "waitAll b n")
    case (Returns c)
    then have "run b [] = Some b \<and> waitAll b n = Returns b4" using Cons.prems by simp
    then show ?thesis by blast
  next
    case (Panics p)
    then show ?thesis using Cons.prems by simp
  next
    case (Blocks c)
    have "\<not> mutex4t b" using Cons.prems(2) by (simp add: ticketed_def)
    from waitAll_Blocks [OF this Blocks] have c: "c = b" .
    with Blocks Cons.prems(1) obtain d where d: "run b evs = Some d"
      "waitAll_among d n wakes = Returns b4"
      by (auto split: option.splits)
    have "length (spawned d) < 2 ^ 64"
      using waitAll_among_spawned [OF d(2)] Cons.prems(3) by simp
    from ticketed_run [OF Cons.prems(2) d(1) this] obtain m' where "ticketed m' d" by blast
    from Cons.IH [OF d(2) this Cons.prems(3)] obtain evs' e where
      e: "run d evs' = Some e" "waitAll e n = Returns b4" by blast
    have "run b (evs @ evs') = Some e" using d(1) e(1) by (simp add: run_append)
    with e(2) show ?thesis by blast
  qed
qed

lemma Flush_pair_among_Returns:
  assumes "Flush_pair_among stop oth b = Returns b4"
  obtains b2 b3 b5 where
    "run (flushLocked_pair stop b) (after_seal oth) = Some b2"
    "run b2 (after_read oth) = Some b3"
    "run (initSemaphore b3) (after_init oth) = Some b5"
    "waitAll_among b5 (next4t b2) (parked oth) = Returns b4"
  using assms unfolding Flush_pair_among_def Let_def
  by (auto split: option.splits)

lemma run_keeps_invariants:
  assumes "ticketed m b" "unshared b" "run b evs = Some b'" "length (spawned b') < 2 ^ 64"
  shows "\<exists>m'. ticketed m' b'" and "unshared b'"
    and "prefix (sealed_view b) (sealed_view b')"
    and "length (spawned b) \<le> length (spawned b')"
  using ticketed_run [OF assms(1,3,4)] unshared_run [OF assms(2,3)] spawned_run [OF assms(3)]
  by blast+

lemma waitAll_only_when_drained:
  "waitAll b n = Returns b' \<Longrightarrow> n \<le> nextHandled4t b' \<and> (\<forall>x \<in> active4t b'. n \<le> x)"
  by (simp add: waitAll_Returns min_active_ge)

lemma Flush_among_drained:
  assumes f: "fresh_pair b0" and r1: "run b0 evs = Some b1"
    and fl: "Flush_pair_among stop oth b1 = Returns b4"
    and n4: "length (spawned b4) < 2 ^ 64"
  shows "(\<forall>k < length (spawned (flushLocked_pair stop b1)).
            k < length (spawned b4) \<and> tpc (spawned b4 ! k) = Finished)
     \<and> prefix (sealed_view (flushLocked_pair stop b1)) (sealed_view b4)
     \<and> next4t (flushLocked_pair stop b1) \<le> nextHandled4t b4
     \<and> (\<forall>x \<in> active4t b4. next4t (flushLocked_pair stop b1) \<le> x)"
proof -
  let ?s = "flushLocked_pair stop b1"
  from fl obtain b2 b3 b5 where
    s2: "run ?s (after_seal oth) = Some b2"
    and s3: "run b2 (after_read oth) = Some b3"
    and s5: "run (initSemaphore b3) (after_init oth) = Some b5"
    and w: "waitAll_among b5 (next4t b2) (parked oth) = Returns b4"
    by (rule Flush_pair_among_Returns)
  have n5: "length (spawned b5) < 2 ^ 64"
    using waitAll_among_spawned [OF w] n4 by simp
  have l35: "length (spawned b3) \<le> length (spawned b5)"
    using spawned_run [OF s5] by simp
  have l23: "length (spawned b2) \<le> length (spawned b3)" by (rule spawned_run [OF s3])
  have ls2: "length (spawned ?s) \<le> length (spawned b2)" by (rule spawned_run [OF s2])
  have l1s: "length (spawned b1) \<le> length (spawned ?s)" by (rule spawned_flushLocked_pair)
  have n3: "length (spawned b3) < 2 ^ 64" using l35 n5 by simp
  have n2: "length (spawned b2) < 2 ^ 64" using l23 n3 by simp
  have ns: "length (spawned ?s) < 2 ^ 64" using ls2 n2 by simp
  have n1: "length (spawned b1) < 2 ^ 64" using l1s ns by simp
  from ticketed_run [OF fresh_pair_ticketed [OF f] r1 n1] obtain m1 where "ticketed m1 b1"
    by blast
  then have ts: "ticketed m1 ?s" by (rule ticketed_flushLocked_pair)
  have us: "unshared ?s"
    using unshared_run [OF fresh_pair_unshared [OF f] r1] unshared_flushLocked_pair by blast
  from run_keeps_invariants [OF ts us s2 n2] obtain m2 where t2: "ticketed m2 b2" and u2: "unshared b2"
    and p2: "prefix (sealed_view ?s) (sealed_view b2)" by blast
  from run_keeps_invariants [OF t2 u2 s3 n3] obtain m3 where t3: "ticketed m3 b3" and u3: "unshared b3"
    and p3: "prefix (sealed_view b2) (sealed_view b3)" by blast
  have ti: "ticketed m3 (initSemaphore b3)" and ui: "unshared (initSemaphore b3)"
    using t3 u3 by simp_all
  from run_keeps_invariants [OF ti ui s5 n5] obtain m5 where t5: "ticketed m5 b5" and u5: "unshared b5"
    and p5: "prefix (sealed_view b3) (sealed_view b5)" by auto
  from waitAll_among_Returns [OF w t5 n4] obtain evs' c where
    c: "run b5 evs' = Some c" and wc: "waitAll c (next4t b2) = Returns b4" by blast
  from wc have b4: "b4 = c\<lparr>mutex4t := False\<rparr>" and w1: "next4t b2 \<le> nextHandled4t c"
    and w2: "next4t b2 \<le> min_active (active4t c)"
    by (simp_all add: waitAll_Returns)
  have nc: "length (spawned c) < 2 ^ 64" using n4 b4 by simp
  from run_keeps_invariants [OF t5 u5 c nc] obtain mc where tc: "ticketed mc c"
    and pc: "prefix (sealed_view b5) (sealed_view c)"
    and l5c: "length (spawned b5) \<le> length (spawned c)" by blast
  from tc have tk: "ticketing mc (spawned c) (active4t c) (next4t c) (nextHandled4t c)"
    by (simp add: ticketed_def)
  have nx2: "next4t b2 = of_nat (length (spawned b2))"
    using t2 by (simp add: ticketed_def ticketing_def)
  have nxs: "next4t ?s = of_nat (length (spawned ?s))"
    using ts by (simp add: ticketed_def ticketing_def)
  have le: "next4t ?s \<le> next4t b2"
    unfolding nx2 nxs using tk_le [OF ns n2] ls2 by simp
  have fin: "k < length (spawned b4) \<and> tpc (spawned b4 ! k) = Finished"
    if "k < length (spawned ?s)" for k
  proof -
    have k2: "k < length (spawned b2)" and kc: "k < length (spawned c)"
      using that ls2 l23 l35 l5c by simp_all
    have "tticket (spawned c ! k) = of_nat k" using tk kc by (simp add: ticketing_def)
    moreover have "(of_nat k :: uint64) < of_nat (length (spawned b2))"
      using tk_less [of k "length (spawned b2)"] k2 n2 by simp
    ultimately have "tticket (spawned c ! k) < next4t b2" using nx2 by simp
    from ticketing_drained [OF tk nc w1 w2 kc this] kc show ?thesis by (simp add: b4)
  qed
  have p: "prefix (sealed_view ?s) (sealed_view b4)"
    using p2 p3 p5 pc by (simp add: b4)
  have a: "\<forall>x \<in> active4t c. next4t b2 \<le> x" using w2 by (simp add: min_active_ge)
  have "next4t ?s \<le> nextHandled4t b4" using le w1 by (simp add: b4)
  moreover have "\<forall>x \<in> active4t b4. next4t ?s \<le> x" using le a by (auto simp: b4)
  ultimately show ?thesis using fin p by blast
qed

text \<open>
  C1. \<open>waitAll(n)\<close> returns only in a state with \<open>nextHandled \<ge> n\<close> and every
  active ticket \<open>\<ge> n\<close>. \<open>Flush\<close>, called in a state an execution reaches from a new
  bundler, seals under \<open>b.mutex\<close>, reads the watermark \<open>t := b.next\<close> and calls
  \<open>waitAll(t)\<close>, the other goroutines taking their steps in between and while the
  call is parked (or taking none). When it returns, every dispatch goroutine started up
  to and including the seal of this \<open>Flush\<close> has finished (its handler returned and its
  ticket was released) and holds the slice and the contents it was sealed with;
  \<open>nextHandled\<close> and every active ticket are at least the number of tickets issued up
  to that seal. The ticket counter is assumed not to have wrapped around.
\<close>

theorem Flush_returns_after_sealed_handlers:
  "(waitAll b n = Returns b' \<longrightarrow> n \<le> nextHandled4t b' \<and> (\<forall>x \<in> active4t b'. n \<le> x))
   \<and> (fresh_pair b0 \<and> run b0 evs = Some b1
       \<and> (Flush_pair_among stop oth b1 = Returns b4 \<or> Flush_pair stop b1 = Returns b4)
       \<and> length (spawned b4) < 2 ^ 64 \<longrightarrow>
         (\<forall>k < length (spawned (flushLocked_pair stop b1)).
             k < length (spawned b4) \<and> tpc (spawned b4 ! k) = Finished)
         \<and> prefix (sealed_view (flushLocked_pair stop b1)) (sealed_view b4)
         \<and> next4t (flushLocked_pair stop b1) \<le> nextHandled4t b4
         \<and> (\<forall>x \<in> active4t b4. next4t (flushLocked_pair stop b1) \<le> x))"
proof (intro conjI impI)
  assume "waitAll b n = Returns b'"
  then show "n \<le> nextHandled4t b'" and "\<forall>x \<in> active4t b'. n \<le> x"
    using waitAll_only_when_drained by blast+
next
  assume a: "fresh_pair b0 \<and> run b0 evs = Some b1
       \<and> (Flush_pair_among stop oth b1 = Returns b4 \<or> Flush_pair stop b1 = Returns b4)
       \<and> length (spawned b4) < 2 ^ 64"
  then have f: "fresh_pair b0" and r: "run b0 evs = Some b1"
    and n: "length (spawned b4) < 2 ^ 64" by simp_all
  from a obtain o' where "Flush_pair_among stop o' b1 = Returns b4"
    using Flush_pair_alone [of stop b1] by metis
  from Flush_among_drained [OF f r this n]
  show "\<forall>k < length (spawned (flushLocked_pair stop b1)).
             k < length (spawned b4) \<and> tpc (spawned b4 ! k) = Finished"
    and "prefix (sealed_view (flushLocked_pair stop b1)) (sealed_view b4)"
    and "next4t (flushLocked_pair stop b1) \<le> nextHandled4t b4"
    and "\<forall>x \<in> active4t b4. next4t (flushLocked_pair stop b1) \<le> x"
    by blast+
qed

theorem Flush_returns_witness:
  "fresh_pair (NewBundler_pair :: nat bundlerP)
   \<and> map_option (\<lambda>b. (map tpc (spawned (flushLocked_pair True b)),
                        map_outcome (\<lambda>b. ()) (\<lambda>b. ()) (Flush_pair True b),
                        map_outcome (\<lambda>b. (map tpc (spawned b), nextHandled4t b, active4t b))
                          (\<lambda>b. ())
                          (Flush_pair_among True
                             \<lparr>after_seal = [], after_read = [], after_init = [],
                              parked = [[EAcquire 0, EHandler 0], [ERelease 0]]\<rparr> b)))
       (run (NewBundler_pair :: nat bundlerP) [EAdd (True, True) 7 1])
     = Some ([AtAcquire], Blocks (), Returns ([Finished], 1, {}))
   \<and> map_option (\<lambda>b. (map tpc (spawned b),
                        map_outcome (\<lambda>b. ()) (\<lambda>b. ()) (waitAll b 1),
                        map_outcome (\<lambda>b. map tpc (spawned b)) (\<lambda>b. ()) (Flush_pair True b)))
       (run (NewBundler_pair :: nat bundlerP)
          [EAdd (True, True) 7 1, EFlush True, EAcquire 0, EHandler 0, ERelease 0])
     = Some ([Finished], Returns (), Returns [Finished])
   \<and> tpc (spawned (the (run (NewBundler_pair :: nat bundlerP)
                [EAdd (True, True) 7 1, EFlush True, EAcquire 0, EHandler 0, ERelease 0])) ! 0)
       = Finished
   \<and> next4t (flushLocked_pair True
          (the (run (NewBundler_pair :: nat bundlerP)
                  [EAdd (True, True) 7 1, EFlush True, EAcquire 0, EHandler 0, ERelease 0])))
       \<le> nextHandled4t
            (the (run (NewBundler_pair :: nat bundlerP)
                    [EAdd (True, True) 7 1, EFlush True, EAcquire 0, EHandler 0, ERelease 0]))"
proof -
  let ?P = "NewBundler_pair :: nat bundlerP"
  let ?oth = "\<lparr>after_seal = [], after_read = [], after_init = [],
               parked = [[EAcquire 0, EHandler 0], [ERelease 0 :: nat event]]\<rparr>"
  let ?b1 = "the (run ?P [EAdd (True, True) 7 1])"
  let ?b4 = "the (run ?P [EAdd (True, True) 7 1, EFlush True, EAcquire 0, EHandler 0,
                          ERelease 0])"
  have h1: "fresh_pair ?P" by (simp add: fresh_pair_def pair_defs)
  have h2: "run ?P [EAdd (True, True) 7 1] = Some ?b1" by (simp add: pair_defs)
  have h3: "Flush_pair_among True ?oth ?b1 = Returns ?b4"
    by (simp add: pair_defs exec_defs Flush_pair_among_def)
  have h4: "length (spawned ?b4) < 2 ^ 64" by (simp add: pair_defs exec_defs)
  have g2: "run ?P [EAdd (True, True) 7 1, EFlush True, EAcquire 0, EHandler 0, ERelease 0]
      = Some ?b4"
    by (simp add: pair_defs exec_defs)
  have g3: "Flush_pair True ?b4 = Returns ?b4" by (simp add: pair_defs exec_defs)
  have g5: "waitAll ?b4 1 = Returns ?b4" by (simp add: pair_defs exec_defs)
  have v1: "map_option (\<lambda>b. (map tpc (spawned (flushLocked_pair True b)),
                        map_outcome (\<lambda>b. ()) (\<lambda>b. ()) (Flush_pair True b),
                        map_outcome (\<lambda>b. (map tpc (spawned b), nextHandled4t b, active4t b))
                          (\<lambda>b. ())
                          (Flush_pair_among True ?oth b)))
       (run ?P [EAdd (True, True) 7 1])
     = Some ([AtAcquire], Blocks (), Returns ([Finished], 1, {}))"
    by (simp add: pair_defs exec_defs Flush_pair_among_def)
  have v2: "map_option (\<lambda>b. (map tpc (spawned b),
                        map_outcome (\<lambda>b. ()) (\<lambda>b. ()) (waitAll b 1),
                        map_outcome (\<lambda>b. map tpc (spawned b)) (\<lambda>b. ()) (Flush_pair True b)))
       (run ?P [EAdd (True, True) 7 1, EFlush True, EAcquire 0, EHandler 0, ERelease 0])
     = Some ([Finished], Returns (), Returns [Finished])"
    by (simp add: pair_defs exec_defs)
  from Flush_returns_after_sealed_handlers
    [of ?b4 1 ?b4 ?P "[EAdd (True, True) 7 1]" ?b1 True ?oth ?b4] h1 h2 h3 h4 g5
  have "\<forall>k < length (spawned (flushLocked_pair True ?b1)).
      tpc (spawned ?b4 ! k) = Finished"
    by blast
  moreover have "0 < length (spawned (flushLocked_pair True ?b1))" by (simp add: pair_defs)
  ultimately have c1: "tpc (spawned ?b4 ! 0) = Finished" by blast
  from Flush_returns_after_sealed_handlers
    [of ?b4 1 ?b4 ?P "[EAdd (True, True) 7 1, EFlush True, EAcquire 0, EHandler 0, ERelease 0]"
        ?b4 True ?oth ?b4] h1 g2 g3 h4 g5
  have c2: "next4t (flushLocked_pair True ?b4) \<le> nextHandled4t ?b4"
    by blast
  from h1 v1 v2 c1 c2 show ?thesis by blast
qed


section \<open>Where the two variants agree\<close>

lemma agree_flushLocked:
  assumes "agree i p"
  shows "\<exists>i'. flushLocked_item True i = Returns i' \<and> agree i' (flushLocked_pair True p)
              \<and> len (items i') = 0 \<and> bsize i' = (if len (items i) = 0 then bsize i else 0)"
proof -
  from assms obtain t where t: "ticket i = Some t" "nxt t = next4t p"
    by (auto simp: agree_def)
  show ?thesis
    using assms t
    by (auto simp: flushLocked_item_Returns flushLocked_pair_def agree_def Let_def
          initTimer_def Next_def config_def)
qed

lemma agree_len_append:
  "len (snd (append1 h s x)) = Suc (len s)"
  by (simp add: append1_def)

lemma agree_armTimer:
  "agree i p \<Longrightarrow> agree (armTimer i) (armTimer p)"
  by (auto simp: agree_def armTimer_def initTimer_def Let_def config_def)

lemma agree_append:
  "agree i p \<Longrightarrow>
   agree (i\<lparr>store := fst (append1 (store i) (items i) x),
            items := snd (append1 (store i) (items i) x), bsize := bsize i + sz\<rparr>)
         (p\<lparr>store := fst (append1 (store p) (bundle p) x),
            bundle := snd (append1 (store p) (bundle p) x), bsize := bsize p + sz\<rparr>)"
  by (auto simp: agree_def agree_len_append config_def)

lemma agree_limit:
  "agree i p \<Longrightarrow> BundleSizeLimit i = BundleSizeLimit p \<and> CountThreshold i = CountThreshold p
     \<and> SizeThreshold i = SizeThreshold p \<and> bsize i = bsize p \<and> len (items i) = len (bundle p)"
  by (simp add: agree_def config_def)

lemma config_flushLocked_item:
  "flushLocked_item s b = Returns b' \<Longrightarrow> config b' = config b"
  by (auto simp: flushLocked_item_Returns Let_def config_def initTimer_def split: if_splits)

lemma count_of_config: "config b' = config b \<Longrightarrow> CountThreshold b' = CountThreshold b"
  by (simp add: config_def)

lemma agree_add:
  assumes a: "agree i p" and c: "int (len (items i)) < sint (CountThreshold i)"
  shows "\<exists>i'. add_item (True, True) i x = Returns i'
              \<and> agree i' (add_pair (True, True) p x (Size x))
              \<and> int (len (items i')) < sint (CountThreshold i')"
proof -
  define pre where "pre = (0 <s BundleSizeLimit i \<and> BundleSizeLimit i <s bsize i + Size x)"
  define p0 where "p0 = (if pre then flushLocked_pair True p else p)"
  obtain i0 where i0: "(if pre then flushLocked_item True i else Returns i) = Returns i0"
    and a0: "agree i0 p0" and l0: "len (items i0) \<le> len (items i)"
    using agree_flushLocked [OF a] a by (cases pre) (auto simp: p0_def)
  define i2 where "i2 = armTimer (i0\<lparr>store := fst (append1 (store i0) (items i0) x),
            items := snd (append1 (store i0) (items i0) x), bsize := bsize i0 + Size x\<rparr>)"
  define p2 where "p2 = armTimer (p0\<lparr>store := fst (append1 (store p0) (bundle p0) x),
            bundle := snd (append1 (store p0) (bundle p0) x), bsize := bsize p0 + Size x\<rparr>)"
  have a2: "agree i2 p2" unfolding i2_def p2_def by (intro agree_armTimer agree_append a0)
  have "config i0 = config i"
    using i0 config_flushLocked_item [of True i i0] by (cases pre) simp_all
  then have "config i2 = config i" by (simp add: i2_def)
  then have ct: "CountThreshold i2 = CountThreshold i" by (rule count_of_config)
  have l2: "len (items i2) = Suc (len (items i0))"
    by (simp add: i2_def armTimer_def initTimer_def Let_def agree_len_append)
  have le: "int (len (items i2)) \<le> sint (CountThreshold i2)"
    using l2 l0 c ct by simp
  have same: "(sint (CountThreshold i2) \<le> int (len (items i2)))
      = (int (len (bundle p2)) = sint (CountThreshold p2))"
    using le agree_limit [OF a2] by auto
  define cnt where "cnt = (sint (CountThreshold i2) \<le> int (len (items i2)))"
  define p3 where "p3 = (if cnt then flushLocked_pair True p2 else p2)"
  obtain i3 where i3: "(if cnt then flushLocked_item True i2 else Returns i2) = Returns i3"
    and a3: "agree i3 p3" and l3: "cnt \<longrightarrow> len (items i3) = 0" and l3': "\<not> cnt \<longrightarrow> i3 = i2"
    using agree_flushLocked [OF a2] a2 by (cases cnt) (auto simp: p3_def)
  define szt where "szt = (SizeThreshold i3 \<le>s bsize i3)"
  define p4 where "p4 = (if szt then flushLocked_pair True p3 else p3)"
  obtain i4 where i4: "(if szt then flushLocked_item True i3 else Returns i3) = Returns i4"
    and a4: "agree i4 p4" and l4: "szt \<longrightarrow> len (items i4) = 0" and l4': "\<not> szt \<longrightarrow> i4 = i3"
    using agree_flushLocked [OF a3] a3 by (cases szt) (auto simp: p4_def)
  have ri: "add_item (True, True) i x = Returns i4"
    unfolding add_item_def and_then_Returns Let_def fst_conv snd_conv
    using i0 i3 i4 unfolding pre_def i2_def cnt_def szt_def by blast
  have e1: "(0 <s BundleSizeLimit p \<and> BundleSizeLimit p <s bsize p + Size x) = pre"
    using agree_limit [OF a] by (simp add: pre_def)
  have e2: "(int (len (bundle p2)) = sint (CountThreshold p2)) = cnt"
    using same by (simp add: cnt_def)
  have e3: "(SizeThreshold p3 \<le>s bsize p3) = szt"
    using agree_limit [OF a3] by (simp add: szt_def)
  have rp: "add_pair (True, True) p x (Size x) = p4"
    unfolding add_pair_def Let_def fst_conv snd_conv e1 p0_def [symmetric]
      p2_def [symmetric] e2 p3_def [symmetric] e3 p4_def [symmetric] ..
  have ct4: "CountThreshold i4 = CountThreshold i"
    by (rule count_of_config [OF config_add_item [OF ri]])
  have pos: "0 < sint (CountThreshold i)" using c by linarith
  have "int (len (items i4)) < sint (CountThreshold i4)"
  proof (cases szt)
    case True
    then show ?thesis using l4 pos ct4 by simp
  next
    case False
    then have e: "i4 = i3" using l4' by simp
    show ?thesis
    proof (cases cnt)
      case True
      then show ?thesis using l3 pos ct4 e by simp
    next
      case False
      then have "i3 = i2" using l3' by simp
      then show ?thesis using False e ct ct4 by (simp add: cnt_def)
    qed
  qed
  with ri rp a4 show ?thesis by simp
qed


lemma agree_initSemaphore: "agree i p \<Longrightarrow> agree (initSemaphore i) (initSemaphore p)"
proof -
  assume a: "agree i p"
  then have "sem i = sem p" "BufferSizeLimit i = BufferSizeLimit p"
    by (simp_all add: agree_def config_def)
  with a show ?thesis
    by (cases "sem p") (auto simp: agree_def initSemaphore_def config_def)
qed

lemma agree_sem_update: "agree i p \<Longrightarrow> agree (i\<lparr>sem := w\<rparr>) (p\<lparr>sem := w\<rparr>)"
  by (auto simp: agree_def config_def)

lemma agree_TryAdd:
  assumes a: "agree i p" and c: "int (len (items i)) < sint (CountThreshold i)"
  shows "\<exists>e i' p'. TryAdd (True, True) i x = Returns (e, i')
            \<and> Add_pair (True, True) p x (Size x) = Returns (e, p')
            \<and> agree i' p' \<and> int (len (items i')) < sint (CountThreshold i')"
proof (cases "0 <s BundleSizeLimit i \<and> BundleSizeLimit i <s Size x")
  case True
  then show ?thesis using a c agree_limit [OF a] by (auto simp: TryAdd_def Add_pair_def)
next
  case False
  have ai: "agree (initSemaphore i) (initSemaphore p)" by (rule agree_initSemaphore [OF a])
  obtain w where w: "sem (initSemaphore i) = Some w" "sem (initSemaphore p) = Some w"
    using sem_initSemaphore [of i] ai by (auto simp: agree_def)
  have ci: "int (len (items (initSemaphore i))) < sint (CountThreshold (initSemaphore i))"
    using c count_of_config [of "initSemaphore i" i] by simp
  show ?thesis
  proof (cases "TryAcquire w (Size x)")
    case None
    then show ?thesis using False w ai ci agree_limit [OF a]
      by (auto simp: TryAdd_def Add_pair_def Let_def)
  next
    case (Some w')
    have aw: "agree (initSemaphore i\<lparr>sem := Some w'\<rparr>) (initSemaphore p\<lparr>sem := Some w'\<rparr>)"
      by (rule agree_sem_update [OF ai])
    have cw: "int (len (items (initSemaphore i\<lparr>sem := Some w'\<rparr>)))
        < sint (CountThreshold (initSemaphore i\<lparr>sem := Some w'\<rparr>))"
      using ci by simp
    from agree_add [OF aw cw, of x] obtain i' where
      "add_item (True, True) (initSemaphore i\<lparr>sem := Some w'\<rparr>) x = Returns i'"
      "agree i' (add_pair (True, True) (initSemaphore p\<lparr>sem := Some w'\<rparr>) x (Size x))"
      "int (len (items i')) < sint (CountThreshold i')" by blast
    then show ?thesis using False w Some agree_limit [OF a]
      by (auto simp: TryAdd_def Add_pair_def Let_def)
  qed
qed

lemma agree_Flush_seal:
  assumes a: "agree i p" and c: "int (len (items i)) < sint (CountThreshold i)"
  shows "\<exists>n i'. Flush_seal_item True i = Returns (n, i')
            \<and> Flush_seal True p = (n, snd (Flush_seal True p))
            \<and> agree i' (snd (Flush_seal True p))
            \<and> int (len (items i')) < sint (CountThreshold i')"
proof -
  from agree_flushLocked [OF a] obtain i1 where
    1: "flushLocked_item True i = Returns i1" and a1: "agree i1 (flushLocked_pair True p)"
    and l1: "len (items i1) = 0" by blast
  from a1 obtain t where t: "ticket i1 = Some t" "nxt t = next4t (flushLocked_pair True p)"
    by (auto simp: agree_def)
  have ct: "CountThreshold (initSemaphore i1) = CountThreshold i"
    using config_flushLocked_item [OF 1] count_of_config [of "initSemaphore i1" i] by simp
  have "0 < sint (CountThreshold i)" using c by linarith
  then have c1: "int (len (items (initSemaphore i1))) < sint (CountThreshold (initSemaphore i1))"
    using l1 ct by simp
  show ?thesis
    using 1 t c1 agree_initSemaphore [OF a1]
    by (auto simp: Flush_seal_item_def Flush_seal_def and_then_def WhatIsNext_def Let_def)
qed

lemma fresh_agree:
  assumes fi: "fresh_item i" and tk: "ticket i \<noteq> None" and fp: "fresh_pair p"
    and cf: "config i = config p" and ct: "0 <s CountThreshold i"
  shows "agree i p \<and> int (len (items i)) < sint (CountThreshold i)"
proof -
  from fi have e: "i = NewBundler_item\<lparr>TimeThreshold := TimeThreshold i,
            CountThreshold := CountThreshold i,
            SizeThreshold := SizeThreshold i, BundleSizeLimit := BundleSizeLimit i,
            BufferSizeLimit := BufferSizeLimit i, HandlerLimit := HandlerLimit i,
            ticket := ticket i\<rparr>"
    and t: "case ticket i of None \<Rightarrow> True | Some t \<Rightarrow> t = NewTicketer (limit t)"
    by (simp_all add: fresh_item_def)
  from fp have f: "p = NewBundler_pair\<lparr>TimeThreshold := TimeThreshold p,
            CountThreshold := CountThreshold p,
            SizeThreshold := SizeThreshold p, BundleSizeLimit := BundleSizeLimit p,
            BufferSizeLimit := BufferSizeLimit p, HandlerLimit := HandlerLimit p\<rparr>"
    by (simp add: fresh_pair_def)
  have i: "bsize i = 0" "timer i = False" "timerRunning i = False" "sem i = None"
    "effects i = []" "spawned i = []" "len (items i) = 0" "len (itemsZero i) = 0"
    by (subst e, simp add: NewBundler_item_def make_slice_def)+
  have p: "bsize p = 0" "timer p = False" "timerRunning p = False" "sem p = None"
    "effects p = []" "spawned p = []" "len (bundle p) = 0" "len (bundleZero p) = 0"
    "next4t p = 0"
    by (subst f, simp add: NewBundler_pair_def make_slice_def)+
  from tk t obtain t0 where "ticket i = Some t0" "nxt t0 = 0"
    by (cases "ticket i") (auto simp: NewTicketer_def, metis Ticket.select_convs(4))
  then show ?thesis
    using i p cf ct by (simp add: agree_def word_sless_alt)
qed

lemma agree_runs:
  assumes "agree i p" "int (len (items i)) < sint (CountThreshold i)"
  shows "\<exists>i' p'.
     runI i (map (\<lambda>c. case c of None \<Rightarrow> IFlush True | Some x \<Rightarrow> ITryAdd (True, True) x) cs)
       = Some i'
     \<and> run p (map (\<lambda>c. case c of None \<Rightarrow> EFlush True
                            | Some x \<Rightarrow> EAdd (True, True) x (Size x)) cs) = Some p'
     \<and> agree i' p'"
  using assms
proof (induction cs arbitrary: i p)
  case Nil
  then show ?case by simp
next
  case (Cons c cs)
  show ?case
  proof (cases c)
    case None
    from agree_Flush_seal [OF Cons.prems] obtain n i1 where
      1: "Flush_seal_item True i = Returns (n, i1)"
      and a1: "agree i1 (snd (Flush_seal True p))"
      and c1: "int (len (items i1)) < sint (CountThreshold i1)" by blast
    from Cons.IH [OF a1 c1] 1 None show ?thesis by simp
  next
    case (Some x)
    from agree_TryAdd [OF Cons.prems, of x] obtain e i1 p1 where
      1: "TryAdd (True, True) i x = Returns (e, i1)"
      and 2: "Add_pair (True, True) p x (Size x) = Returns (e, p1)"
      and a1: "agree i1 p1"
      and c1: "int (len (items i1)) < sint (CountThreshold i1)" by blast
    from Cons.IH [OF a1 c1] 1 2 Some show ?thesis by simp
  qed
qed

text \<open>
  Apart from their defects the two variants agree: from new bundlers with the same
  public fields and a positive \<open>CountThreshold\<close>, the Item variant given a ticketer,
  and no timer having fired when it is stopped, every sequence of admissions and
  \<open>Flush\<close> seals runs through in both and leaves them in step: the same results, and
  the same bundles dispatched, by ticket, length and size.
\<close>

lemma variants_agree_apart_from_defects:
  assumes "fresh_item i" "ticket i \<noteq> None" "fresh_pair p" "config i = config p"
    "0 <s CountThreshold i"
  shows "\<exists>i' p'.
     runI i (map (\<lambda>c. case c of None \<Rightarrow> IFlush True | Some x \<Rightarrow> ITryAdd (True, True) x) cs)
       = Some i'
     \<and> run p (map (\<lambda>c. case c of None \<Rightarrow> EFlush True
                            | Some x \<Rightarrow> EAdd (True, True) x (Size x)) cs) = Some p'
     \<and> agree i' p'"
  using fresh_agree [OF assms] by (intro agree_runs) simp_all

end
